theory Spec2Isabelle
  imports Main "HOL-Library.Sublist" "HOL-Library.Multiset"
begin

section \<open>The model snapshot\<close>

text \<open>
  The query tools read an immutable computed model. The model itself (\<open>@likec4/core\<close>)
  is a collaborator of the tools: element lookup, the relationship accessors and the
  ancestor test are taken as fields of a record, so every theorem below holds for
  whatever these accessors return.
\<close>

type_synonym fqn = string

text \<open>
  Failures. Every \<open>invariant(cond, message)\<close> of the tools throws; the constructor
  records which one: \<open>NotFound\<close> for the three "... not found in project ..." messages,
  \<open>InvalidArgument\<close> for the other invariants. \<open>SchemaRejected\<close> is a failed parse of
  the arguments against the tool's \<open>inputSchema\<close>. \<open>TypeError\<close> is what the runtime
  throws when a method is called on a value that does not have it.
\<close>

datatype error = NotFound | InvalidArgument | SchemaRejected | TypeError

text \<open>A metadata entry is \<open>string | string[]\<close>.\<close>

datatype metadata_value = Scalar string | Array "string list"

record view_model =
  view_id :: string
  titleOrId :: string
  view_type :: string

record relationship =
  rel_source :: fqn
  rel_target :: fqn
  rel_kind :: "string option"
  rel_title :: "string option"
  rel_description :: "string option"
  rel_technology :: "string option"
  rel_tags :: "string list"

record element =
  el_id :: fqn
  el_name :: string
  el_kind :: string
  el_title :: string
  el_tags :: "string list"
  getMetadata :: "string \<rightharpoonup> metadata_value"
  views :: "view_model list"

text \<open>The relationship filter passed to \<open>incoming\<close>: \<open>'all'\<close> or \<open>'direct'\<close>.\<close>

datatype rel_filter = FilterAll | FilterDirect

record likec4_model =
  findElement :: "fqn \<Rightarrow> element option"
  elements :: "element list"
  deployment_elements :: "element list"
  outgoing :: "element \<Rightarrow> relationship list"
  incoming :: "element \<Rightarrow> rel_filter \<Rightarrow> relationship list"
  isAncestorOf :: "element \<Rightarrow> element \<Rightarrow> bool"

subsection \<open>Shared projections (\<open>_common\<close>)\<close>

record view_ref =
  ref_id :: string
  ref_title :: string
  ref_type :: string

definition includedInViews :: "view_model list \<Rightarrow> view_ref list" where
  "includedInViews vs =
     map (\<lambda>v. \<lparr>ref_id = view_id v, ref_title = titleOrId v, ref_type = view_type v\<rparr>) vs"

text \<open>The fields every tool copies from an element into its response record.\<close>

record entity_out =
  out_id :: fqn
  out_name :: string
  out_kind :: string
  out_title :: string
  out_tags :: "string list"
  out_metadata :: "string \<rightharpoonup> metadata_value"
  out_includedInViews :: "view_ref list"

text \<open>Both predicate tools stop collecting at 50 results.\<close>

definition limit :: nat where
  "limit = 50"

section \<open>Input schemas\<close>

text \<open>
  Each tool declares an \<open>inputSchema\<close>, and its handler reads the arguments as parsed by
  that schema: \<open>args.includeIndirect\<close> and \<open>args.maxNodes\<close> are used with no fallback of
  their own, so the defaults are the schema's. The three combinators below are the \<open>zod\<close>
  checks the numeric options use. Numbers are modelled as integers (the schemas'
  \<open>.int()\<close> admits nothing else).

  \<^item> \<open>z.number().int().min(lo).max(hi)\<close> accepts exactly the integers from \<open>lo\<close> to \<open>hi\<close>;
  \<^item> \<open>z.number().int().positive().max(hi)\<close> accepts exactly those from \<open>1\<close> to \<open>hi\<close>;
  \<^item> \<open>.optional().default(d)\<close> yields \<open>d\<close> for a missing value and checks a given one.
\<close>

definition z_int_min_max :: "int \<Rightarrow> int \<Rightarrow> int \<Rightarrow> error + int" where
  "z_int_min_max lo hi x = (if lo \<le> x \<and> x \<le> hi then Inr x else Inl SchemaRejected)"

definition z_int_positive_max :: "int \<Rightarrow> int \<Rightarrow> error + int" where
  "z_int_positive_max hi x = (if 0 < x \<and> x \<le> hi then Inr x else Inl SchemaRejected)"

definition z_optional_default :: "('a \<Rightarrow> error + 'a) \<Rightarrow> 'a \<Rightarrow> 'a option \<Rightarrow> error + 'a" where
  "z_optional_default schema d v = (case v of None \<Rightarrow> Inr d | Some x \<Rightarrow> schema x)"

section \<open>JavaScript sets, objects and truthiness\<close>

text \<open>
  A \<open>Set<string>\<close> keeps its members once, in insertion order: a list without
  repetition, with \<open>has\<close>, \<open>add\<close> and \<open>size\<close>.
\<close>

type_synonym 'a js_set = "'a list"

definition set_has :: "'a js_set \<Rightarrow> 'a \<Rightarrow> bool" where
  "set_has s x = (x \<in> set s)"

definition set_add :: "'a js_set \<Rightarrow> 'a \<Rightarrow> 'a js_set" where
  "set_add s x = (if x \<in> set s then s else s @ [x])"

definition set_size :: "'a js_set \<Rightarrow> nat" where
  "set_size s = length s"

text \<open>
  A plain object used as a dictionary (\<open>Record<string, \<dots>>\<close>) is modelled by the map of its
  own keys; its prototype is \<open>Object.prototype\<close>, whose property names are listed below.
  \<^item> Reading: \<open>k in obj\<close> holds, and \<open>obj[k]\<close> is defined, for an own key and also for a
    property of the prototype. An inherited property is a function or an object of the
    runtime, never a string or an array.
  \<^item> Writing: \<open>obj[k] = v\<close> with an object \<open>v\<close> adds the own key \<open>k\<close>, except for
    \<open>__proto__\<close>, where it replaces the prototype and adds no key.
\<close>

definition object_prototype_keys :: "string list" where
  "object_prototype_keys =
     [''constructor'', ''__defineGetter__'', ''__defineSetter__'', ''hasOwnProperty'',
      ''__lookupGetter__'', ''__lookupSetter__'', ''isPrototypeOf'', ''propertyIsEnumerable'',
      ''toString'', ''valueOf'', ''__proto__'', ''toLocaleString'']"

datatype 'a property = Own 'a | Inherited

definition object_get :: "(string \<rightharpoonup> 'a) \<Rightarrow> string \<Rightarrow> 'a property option" where
  "object_get obj k =
     (case obj k of
        Some v \<Rightarrow> Some (Own v)
      | None \<Rightarrow> if k \<in> set object_prototype_keys then Some Inherited else None)"

definition object_set :: "(string \<rightharpoonup> 'a) \<Rightarrow> string \<Rightarrow> 'a \<Rightarrow> (string \<rightharpoonup> 'a)" where
  "object_set obj k v = (if k = ''__proto__'' then obj else obj(k \<mapsto> v))"

text \<open>
  A value that the metadata helpers handle: a string, or something else (a function or
  an object of the runtime).
\<close>

datatype js_value = JsString string | JsObject

text \<open>
  Truthiness. On \<open>string | null\<close> the falsy values are the missing one and the empty
  string; a function or object is truthy. \<open>a || b\<close> is the left operand unless it is
  falsy.
\<close>

definition falsy :: "string option \<Rightarrow> bool" where
  "falsy x = (case x of None \<Rightarrow> True | Some s \<Rightarrow> s = [])"

definition js_falsy :: "js_value option \<Rightarrow> bool" where
  "js_falsy x =
     (case x of None \<Rightarrow> True | Some (JsString s) \<Rightarrow> s = [] | Some JsObject \<Rightarrow> False)"

definition or_undef :: "js_value option \<Rightarrow> js_value option \<Rightarrow> js_value option" where
  "or_undef a b = (if js_falsy a then b else a)"

definition or_string :: "js_value option \<Rightarrow> string \<Rightarrow> js_value" where
  "or_string a b = (if js_falsy a then JsString b else the a)"

text \<open>
  \<open>some\<close> and \<open>find\<close> with a callback that may throw: the elements are tried in order
  up to the first one on which the callback throws or returns true.
\<close>

fun js_some :: "('a \<Rightarrow> error + bool) \<Rightarrow> 'a list \<Rightarrow> error + bool" where
  "js_some p [] = Inr False"
| "js_some p (v # vs) =
     (case p v of Inl e \<Rightarrow> Inl e | Inr b \<Rightarrow> if b then Inr True else js_some p vs)"

fun js_find :: "('a \<Rightarrow> error + bool) \<Rightarrow> 'a list \<Rightarrow> error + 'a option" where
  "js_find p [] = Inr None"
| "js_find p (v # vs) =
     (case p v of Inl e \<Rightarrow> Inl e | Inr b \<Rightarrow> if b then Inr (Some v) else js_find p vs)"

section \<open>query-by-tags\<close>

record tags_args =
  allOf :: "string list option"
  anyOf :: "string list option"
  noneOf :: "string list option"

text \<open>\<open>args.x && args.x.length > 0\<close>: the option is given and its array is not empty.\<close>

definition given_nonempty :: "string list option \<Rightarrow> bool" where
  "given_nonempty x = (case x of None \<Rightarrow> False | Some ts \<Rightarrow> length ts > 0)"

text \<open>
  \<open>matchesTags\<close>: the three early returns of the helper, in the source's order. The
  argument is the \<open>Set\<close> built from the entity's tags; \<open>every\<close> is \<open>list_all\<close> and \<open>some\<close>
  is \<open>list_ex\<close>.
\<close>

definition matchesTags :: "tags_args \<Rightarrow> string set \<Rightarrow> bool" where
  "matchesTags args tags =
     (if given_nonempty (allOf args) \<and> \<not> list_all (\<lambda>tag. tag \<in> tags) (the (allOf args))
      then False
      else if given_nonempty (anyOf args) \<and> \<not> list_ex (\<lambda>tag. tag \<in> tags) (the (anyOf args))
      then False
      else if given_nonempty (noneOf args) \<and> \<not> (\<not> list_ex (\<lambda>tag. tag \<in> tags) (the (noneOf args)))
      then False
      else True)"

definition tag_result :: "element \<Rightarrow> entity_out" where
  "tag_result e =
     \<lparr>out_id = el_id e, out_name = el_name e, out_kind = el_kind e, out_title = el_title e,
      out_tags = el_tags e, out_metadata = getMetadata e,
      out_includedInViews = includedInViews (views e)\<rparr>"

text \<open>
  One \<open>for\<close> loop of the tool over a universe of entities: it breaks as soon as the
  result list holds \<open>limit\<close> entries and pushes every entity whose tags match.
\<close>

fun tags_loop :: "tags_args \<Rightarrow> element list \<Rightarrow> entity_out list \<Rightarrow> entity_out list" where
  "tags_loop args [] results = results"
| "tags_loop args (e # es) results =
     (if length results \<ge> limit then results
      else if matchesTags args (set (el_tags e))
        then tags_loop args es (results @ [tag_result e])
        else tags_loop args es results)"

definition queryByTags :: "likec4_model \<Rightarrow> tags_args \<Rightarrow> error + entity_out list" where
  "queryByTags m args =
     (if \<not> (given_nonempty (allOf args) \<or> given_nonempty (anyOf args) \<or> given_nonempty (noneOf args))
      then Inl InvalidArgument
      else
        let results = tags_loop args (elements m) [];
            results = (if length results < limit
                       then tags_loop args (deployment_elements m) results
                       else results)
        in Inr results)"

section \<open>query-by-metadata\<close>

text \<open>
  The match mode is the schema's enum \<open>'exact' | 'contains' | 'exists'\<close>; the helpers'
  \<open>default\<close> branches are for strings outside the enum, which no parsed call carries.
\<close>

datatype matchMode = Exact | Contains | Exists

text \<open>The arguments; \<open>search_value\<close> is the optional \<open>value\<close>.\<close>

record metadata_args =
  key :: string
  search_value :: "string option"
  matchMode :: "matchMode option"

record metadata_match = entity_out +
  matchedValue :: js_value

text \<open>
  \<open>str_includes s part\<close> is \<open>s.includes(part)\<close>, the substring test. The runtime's
  \<open>toLowerCase\<close> is not defined here: the helpers take it as the parameter \<open>lower\<close>, and
  what is proved of them holds for every such function.
\<close>

definition str_includes :: "string \<Rightarrow> string \<Rightarrow> bool" where
  "str_includes s part = sublist part s"

text \<open>
  \<open>Array.isArray(metadataValue) ? metadataValue : [metadataValue]\<close>. The value looked up
  under the key is an entry of the metadata or, for a property name of
  \<open>Object.prototype\<close>, an inherited value, which is not an array.
\<close>

fun strings_of :: "metadata_value \<Rightarrow> string list" where
  "strings_of (Scalar s) = [s]"
| "strings_of (Array vs) = vs"

fun values_of :: "metadata_value property \<Rightarrow> js_value list" where
  "values_of (Own mv) = map JsString (strings_of mv)"
| "values_of Inherited = [JsObject]"

text \<open>\<open>v === searchValue\<close>, which never throws and is false on a value that is no string.\<close>

definition strict_equals :: "string \<Rightarrow> js_value \<Rightarrow> error + bool" where
  "strict_equals searchValue v = Inr (v = JsString searchValue)"

text \<open>
  \<open>v.toLowerCase().includes(searchLower)\<close>: a value that is no string has no
  \<open>toLowerCase\<close>, and the call throws.
\<close>

definition lower_includes :: "(string \<Rightarrow> string) \<Rightarrow> string \<Rightarrow> js_value \<Rightarrow> error + bool" where
  "lower_includes lower searchLower v =
     (case v of
        JsString s \<Rightarrow> Inr (str_includes (lower s) searchLower)
      | JsObject \<Rightarrow> Inl TypeError)"

definition matches ::
  "(string \<Rightarrow> string) \<Rightarrow> metadata_value property \<Rightarrow> string option \<Rightarrow> matchMode \<Rightarrow> error + bool"
where
  "matches lower metadataValue searchValue mode =
     (let vals = values_of metadataValue in
      case mode of
        Exists \<Rightarrow> Inr True
      | Exact \<Rightarrow>
          (case searchValue of
             None \<Rightarrow> Inr False
           | Some sv \<Rightarrow> js_some (strict_equals sv) vals)
      | Contains \<Rightarrow>
          (case searchValue of
             None \<Rightarrow> Inr False
           | Some sv \<Rightarrow>
               let searchLower = lower sv
               in js_some (lower_includes lower searchLower) vals))"

text \<open>\<open>values[0]\<close>, which is \<open>undefined\<close> on an empty array.\<close>

definition first_value :: "js_value list \<Rightarrow> js_value option" where
  "first_value vs = (case vs of [] \<Rightarrow> None | v # _ \<Rightarrow> Some v)"

definition getMatchedValue ::
  "(string \<Rightarrow> string) \<Rightarrow> metadata_value property \<Rightarrow> string option \<Rightarrow> matchMode \<Rightarrow>
     error + js_value"
where
  "getMatchedValue lower metadataValue searchValue mode =
     (let vals = values_of metadataValue in
      if mode = Exists \<or> searchValue = None then Inr (or_string (first_value vals) [])
      else if mode = Exact
        then (case js_find (strict_equals (the searchValue)) vals of
                Inl e \<Rightarrow> Inl e
              | Inr found \<Rightarrow> Inr (or_string (or_undef found (first_value vals)) []))
      else if mode = Contains
        then (let searchLower = lower (the searchValue)
              in case js_find (lower_includes lower searchLower) vals of
                   Inl e \<Rightarrow> Inl e
                 | Inr found \<Rightarrow> Inr (or_string (or_undef found (first_value vals)) []))
      else Inr (or_string (first_value vals) []))"

definition metadata_result :: "element \<Rightarrow> js_value \<Rightarrow> metadata_match" where
  "metadata_result e mv =
     \<lparr>out_id = el_id e, out_name = el_name e, out_kind = el_kind e, out_title = el_title e,
      out_tags = el_tags e, out_metadata = getMetadata e,
      out_includedInViews = includedInViews (views e), matchedValue = mv\<rparr>"

text \<open>
  One \<open>for\<close> loop of the tool. \<open>args.key in metadata\<close> together with
  \<open>metadataValue !== undefined\<close> is the \<open>Some\<close> case of the lookup in the metadata
  object. An error thrown by a helper ends the loop and the call.
\<close>

fun metadata_loop ::
  "(string \<Rightarrow> string) \<Rightarrow> metadata_args \<Rightarrow> matchMode \<Rightarrow> element list \<Rightarrow> metadata_match list \<Rightarrow>
     error + metadata_match list"
where
  "metadata_loop lower args mode [] results = Inr results"
| "metadata_loop lower args mode (e # es) results =
     (if length results \<ge> limit then Inr results
      else
        (case object_get (getMetadata e) (key args) of
           None \<Rightarrow> metadata_loop lower args mode es results
         | Some metadataValue \<Rightarrow>
             (case matches lower metadataValue (search_value args) mode of
                Inl err \<Rightarrow> Inl err
              | Inr matched \<Rightarrow>
                  if matched
                  then (case getMatchedValue lower metadataValue (search_value args) mode of
                          Inl err \<Rightarrow> Inl err
                        | Inr mv \<Rightarrow>
                            metadata_loop lower args mode es (results @ [metadata_result e mv]))
                  else metadata_loop lower args mode es results)))"

text \<open>
  The handler has no \<open>invariant\<close>; it fails only when a helper throws.
\<close>

definition queryByMetadata ::
  "(string \<Rightarrow> string) \<Rightarrow> likec4_model \<Rightarrow> metadata_args \<Rightarrow> error + metadata_match list"
where
  "queryByMetadata lower m args =
     (let mode = (case matchMode args of None \<Rightarrow> Exact | Some md \<Rightarrow> md)
      in case metadata_loop lower args mode (elements m) [] of
           Inl err \<Rightarrow> Inl err
         | Inr results \<Rightarrow>
             if length results < limit
             then metadata_loop lower args mode (deployment_elements m) results
             else Inr results)"

section \<open>find-relationship-paths\<close>

text \<open>The arguments \<open>sourceId\<close>, \<open>targetId\<close> and the optional \<open>maxDepth\<close>.\<close>

record paths_args =
  p_sourceId :: fqn
  p_targetId :: fqn
  p_maxDepth :: "int option"

record rel_details =
  rd_kind :: "string option"
  rd_title :: "string option"
  rd_description :: "string option"
  rd_technology :: "string option"
  rd_tags :: "string list"

record PathStep =
  step_source :: fqn
  step_target :: fqn
  step_relationship :: rel_details

record PathNode =
  node_elementId :: fqn
  node_path :: "PathStep list"
  node_visited :: "fqn js_set"

record found_path =
  path_length :: nat
  steps :: "PathStep list"

definition maxPaths :: nat where
  "maxPaths = 100"

definition pathStep :: "relationship \<Rightarrow> PathStep" where
  "pathStep rel =
     \<lparr>step_source = rel_source rel, step_target = rel_target rel,
      step_relationship =
        \<lparr>rd_kind = rel_kind rel, rd_title = rel_title rel,
         rd_description = rel_description rel, rd_technology = rel_technology rel,
         rd_tags = rel_tags rel\<rparr>\<rparr>"

text \<open>
  The \<open>for\<close> loop over the outgoing relationships of the current element. It pushes a
  completed path for every relationship that ends in the target, skips a relationship
  whose end is already on the current path, and queues a new frontier item otherwise.
  Nothing in the loop looks at the number of paths found so far.
\<close>

fun explore ::
  "fqn \<Rightarrow> PathNode \<Rightarrow> relationship list \<Rightarrow> PathNode list \<Rightarrow> found_path list \<Rightarrow>
     PathNode list \<times> found_path list"
where
  "explore tid current [] queue foundPaths = (queue, foundPaths)"
| "explore tid current (rel # rels) queue foundPaths =
     (let nextId = rel_target rel in
      if nextId = tid
      then explore tid current rels queue
             (foundPaths @
                [\<lparr>path_length = length (node_path current) + 1,
                  steps = node_path current @ [pathStep rel]\<rparr>])
      else if set_has (node_visited current) nextId
      then explore tid current rels queue foundPaths
      else explore tid current rels
             (queue @
                [\<lparr>node_elementId = nextId, node_path = node_path current @ [pathStep rel],
                  node_visited = set_add (node_visited current) nextId\<rparr>])
             foundPaths)"

definition remaining :: "int \<Rightarrow> PathNode \<Rightarrow> nat" where
  "remaining maxDepth n = nat (maxDepth - int (length (node_path n)))"

text \<open>
  The \<open>while (queue.length > 0 && foundPaths.length < maxPaths)\<close> loop; \<open>queue.shift()\<close>
  takes the head. The loop terminates because every item it queues has one hop less
  left than the item it replaces (the multiset of hops left gets smaller).
\<close>

function search ::
  "likec4_model \<Rightarrow> fqn \<Rightarrow> int \<Rightarrow> PathNode list \<Rightarrow> found_path list \<Rightarrow> found_path list"
where
  "search m tid maxDepth [] foundPaths = foundPaths"
| "search m tid maxDepth (current # queue) foundPaths =
     (if length foundPaths < maxPaths then
        (if int (length (node_path current)) \<ge> maxDepth
         then search m tid maxDepth queue foundPaths
         else
           (case findElement m (node_elementId current) of
              None \<Rightarrow> search m tid maxDepth queue foundPaths
            | Some currentElement \<Rightarrow>
                search m tid maxDepth
                  (fst (explore tid current (outgoing m currentElement) queue foundPaths))
                  (snd (explore tid current (outgoing m currentElement) queue foundPaths))))
      else foundPaths)"
  by pat_completeness auto
termination
proof (relation "inv_image (mult less_than)
         (\<lambda>(m, tid, maxDepth, queue, foundPaths). mset (map (remaining maxDepth) queue))")
  show "wf (inv_image (mult less_than)
         (\<lambda>(m, tid, maxDepth, queue, foundPaths). mset (map (remaining maxDepth) queue)))"
    by (intro wf_inv_image wf_mult wf_less_than)
next
  fix m :: likec4_model and tid :: fqn and maxDepth :: int and current :: PathNode
    and queue :: "PathNode list" and foundPaths :: "found_path list"
  have "(mset (map (remaining maxDepth) queue) + {#},
         mset (map (remaining maxDepth) queue) + {#remaining maxDepth current#})
          \<in> mult less_than"
    by (rule one_step_implies_mult) auto
  then have drop: "((m, tid, maxDepth, queue, foundPaths),
          (m, tid, maxDepth, current # queue, foundPaths))
      \<in> inv_image (mult less_than)
         (\<lambda>(m, tid, maxDepth, queue, foundPaths). mset (map (remaining maxDepth) queue))"
    by simp
  show "((m, tid, maxDepth, queue, foundPaths), (m, tid, maxDepth, current # queue, foundPaths))
      \<in> inv_image (mult less_than)
         (\<lambda>(m, tid, maxDepth, queue, foundPaths). mset (map (remaining maxDepth) queue))"
    by (rule drop)
  show "((m, tid, maxDepth, queue, foundPaths), (m, tid, maxDepth, current # queue, foundPaths))
      \<in> inv_image (mult less_than)
         (\<lambda>(m, tid, maxDepth, queue, foundPaths). mset (map (remaining maxDepth) queue))"
    by (rule drop)
  fix currentElement :: element
  assume below: "\<not> maxDepth \<le> int (length (node_path current))"
  have pushed: "\<exists>new. fst (explore tid current rels q f) = q @ new
      \<and> list_all (\<lambda>n. length (node_path n) = Suc (length (node_path current))) new"
    for rels q f
  proof (induction rels arbitrary: q f)
    case Nil
    then show ?case by simp
  next
    case (Cons rel rels)
    show ?case
    proof (cases "rel_target rel = tid \<or> set_has (node_visited current) (rel_target rel)")
      case True
      then show ?thesis using Cons.IH by (auto simp: Let_def)
    next
      case False
      define n where "n = \<lparr>node_elementId = rel_target rel,
         node_path = node_path current @ [pathStep rel],
         node_visited = set_add (node_visited current) (rel_target rel)\<rparr>"
      from Cons.IH [of "q @ [n]" f] obtain new where
        "fst (explore tid current rels (q @ [n]) f) = (q @ [n]) @ new"
        "list_all (\<lambda>n. length (node_path n) = Suc (length (node_path current))) new"
        by blast
      then have "fst (explore tid current (rel # rels) q f) = q @ (n # new)
         \<and> list_all (\<lambda>n. length (node_path n) = Suc (length (node_path current))) (n # new)"
        using False by (simp add: Let_def n_def)
      then show ?thesis by blast
    qed
  qed
  then obtain new where new:
    "fst (explore tid current (outgoing m currentElement) queue foundPaths) = queue @ new"
    "list_all (\<lambda>n. length (node_path n) = Suc (length (node_path current))) new"
    by blast
  from new(2) below
  have less: "\<forall>k \<in># mset (map (remaining maxDepth) new).
      \<exists>j \<in># {#remaining maxDepth current#}. (k, j) \<in> less_than"
    by (auto simp: list_all_iff remaining_def)
  have "(mset (map (remaining maxDepth) queue) + mset (map (remaining maxDepth) new),
         mset (map (remaining maxDepth) queue) + {#remaining maxDepth current#})
          \<in> mult less_than"
    by (rule one_step_implies_mult) (use less in simp_all)
  with new(1)
  show "((m, tid, maxDepth, fst (explore tid current (outgoing m currentElement) queue foundPaths),
          snd (explore tid current (outgoing m currentElement) queue foundPaths)),
         (m, tid, maxDepth, current # queue, foundPaths))
      \<in> inv_image (mult less_than)
         (\<lambda>(m, tid, maxDepth, queue, foundPaths). mset (map (remaining maxDepth) queue))"
    by simp
qed

text \<open>\<open>Math.min(args.maxDepth ?? 3, 5)\<close>\<close>

definition effective_maxDepth :: "paths_args \<Rightarrow> int" where
  "effective_maxDepth args = min (case p_maxDepth args of None \<Rightarrow> 3 | Some d \<Rightarrow> d) 5"

text \<open>The paths in the order the loop found them, before they are sorted.\<close>

definition discovered :: "likec4_model \<Rightarrow> element \<Rightarrow> element \<Rightarrow> int \<Rightarrow> found_path list" where
  "discovered m source target maxDepth =
     search m (el_id target) maxDepth
       [\<lparr>node_elementId = el_id source, node_path = [], node_visited = [el_id source]\<rparr>] []"

text \<open>
  The handler: the four invariants in the source's order, then the search, then
  \<open>foundPaths.sort((a, b) => a.length - b.length)\<close>, which is a stable sort by length.
\<close>

definition findRelationshipPaths_handler ::
  "likec4_model \<Rightarrow> paths_args \<Rightarrow> error + found_path list"
where
  "findRelationshipPaths_handler m args =
     (case findElement m (p_sourceId args) of
        None \<Rightarrow> Inl NotFound
      | Some source \<Rightarrow>
          (case findElement m (p_targetId args) of
             None \<Rightarrow> Inl NotFound
           | Some target \<Rightarrow>
               if \<not> (el_id source \<noteq> el_id target) then Inl InvalidArgument
               else if \<not> (\<not> isAncestorOf m source target \<and> \<not> isAncestorOf m target source)
               then Inl InvalidArgument
               else
                 let foundPaths = discovered m source target (effective_maxDepth args)
                 in Inr (sort_key path_length foundPaths)))"

text \<open>
  The tool: \<open>maxDepth: z.number().int().min(1).max(5).optional().default(3)\<close> is
  checked first, and the handler runs on the parsed arguments.
\<close>

definition findRelationshipPaths :: "likec4_model \<Rightarrow> paths_args \<Rightarrow> error + found_path list" where
  "findRelationshipPaths m args =
     (case z_optional_default (z_int_min_max 1 5) 3 (p_maxDepth args) of
        Inl e \<Rightarrow> Inl e
      | Inr d \<Rightarrow> findRelationshipPaths_handler m (args\<lparr>p_maxDepth := Some d\<rparr>))"


subsection \<open>The calls a run makes on the model\<close>

text \<open>
  The handler reads the model through three accessors: \<open>model.findElement(id)\<close>,
  \<open>x.isAncestorOf(y)\<close> and \<open>currentElement.outgoing()\<close>. To speak of what a run does
  before it fails, the same handler is written once more with the list of these calls,
  in the order the code makes them, carried along as state. The first two
  \<open>findElement\<close> calls and the \<open>isAncestorOf\<close> calls belong to the validation; every
  call made inside the \<open>while\<close> loop belongs to the traversal.
\<close>

datatype model_call = CallFindElement fqn | CallIsAncestorOf fqn fqn | CallOutgoing fqn

function search_traced ::
  "likec4_model \<Rightarrow> fqn \<Rightarrow> int \<Rightarrow> PathNode list \<Rightarrow> found_path list \<Rightarrow> model_call list \<Rightarrow>
     found_path list \<times> model_call list"
where
  "search_traced m tid maxDepth [] foundPaths calls = (foundPaths, calls)"
| "search_traced m tid maxDepth (current # queue) foundPaths calls =
     (if length foundPaths < maxPaths then
        (if int (length (node_path current)) \<ge> maxDepth
         then search_traced m tid maxDepth queue foundPaths calls
         else
           (case findElement m (node_elementId current) of
              None \<Rightarrow>
                search_traced m tid maxDepth queue foundPaths
                  (calls @ [CallFindElement (node_elementId current)])
            | Some currentElement \<Rightarrow>
                search_traced m tid maxDepth
                  (fst (explore tid current (outgoing m currentElement) queue foundPaths))
                  (snd (explore tid current (outgoing m currentElement) queue foundPaths))
                  (calls @ [CallFindElement (node_elementId current),
                            CallOutgoing (el_id currentElement)])))
      else (foundPaths, calls))"
  by pat_completeness auto
termination
proof (relation "inv_image (mult less_than)
         (\<lambda>(m, tid, maxDepth, queue, foundPaths, calls). mset (map (remaining maxDepth) queue))")
  show "wf (inv_image (mult less_than)
         (\<lambda>(m, tid, maxDepth, queue, foundPaths, calls).
            mset (map (remaining maxDepth) queue)))"
    by (intro wf_inv_image wf_mult wf_less_than)
next
  fix m :: likec4_model and tid :: fqn and maxDepth :: int and current :: PathNode
    and queue :: "PathNode list" and foundPaths :: "found_path list"
    and calls :: "model_call list"
  have "(mset (map (remaining maxDepth) queue) + {#},
         mset (map (remaining maxDepth) queue) + {#remaining maxDepth current#})
          \<in> mult less_than"
    by (rule one_step_implies_mult) auto
  then have drop: "((m, tid, maxDepth, queue, foundPaths, c1),
          (m, tid, maxDepth, current # queue, foundPaths, c2))
      \<in> inv_image (mult less_than)
         (\<lambda>(m, tid, maxDepth, queue, foundPaths, calls).
            mset (map (remaining maxDepth) queue))" for c1 c2 :: "model_call list"
    by simp
  show "((m, tid, maxDepth, queue, foundPaths, calls),
         (m, tid, maxDepth, current # queue, foundPaths, calls))
      \<in> inv_image (mult less_than)
         (\<lambda>(m, tid, maxDepth, queue, foundPaths, calls).
            mset (map (remaining maxDepth) queue))"
    by (rule drop)
  show "((m, tid, maxDepth, queue, foundPaths,
          calls @ [CallFindElement (node_elementId current)]),
         (m, tid, maxDepth, current # queue, foundPaths, calls))
      \<in> inv_image (mult less_than)
         (\<lambda>(m, tid, maxDepth, queue, foundPaths, calls).
            mset (map (remaining maxDepth) queue))"
    by (rule drop)
  fix currentElement :: element
  assume below: "\<not> maxDepth \<le> int (length (node_path current))"
  have pushed: "\<exists>new. fst (explore tid current rels q f) = q @ new
      \<and> list_all (\<lambda>n. length (node_path n) = Suc (length (node_path current))) new"
    for rels q f
  proof (induction rels arbitrary: q f)
    case Nil
    then show ?case by simp
  next
    case (Cons rel rels)
    show ?case
    proof (cases "rel_target rel = tid \<or> set_has (node_visited current) (rel_target rel)")
      case True
      then show ?thesis using Cons.IH by (auto simp: Let_def)
    next
      case False
      define n where "n = \<lparr>node_elementId = rel_target rel,
         node_path = node_path current @ [pathStep rel],
         node_visited = set_add (node_visited current) (rel_target rel)\<rparr>"
      from Cons.IH [of "q @ [n]" f] obtain new where
        "fst (explore tid current rels (q @ [n]) f) = (q @ [n]) @ new"
        "list_all (\<lambda>n. length (node_path n) = Suc (length (node_path current))) new"
        by blast
      then have "fst (explore tid current (rel # rels) q f) = q @ (n # new)
         \<and> list_all (\<lambda>n. length (node_path n) = Suc (length (node_path current))) (n # new)"
        using False by (simp add: Let_def n_def)
      then show ?thesis by blast
    qed
  qed
  then obtain new where new:
    "fst (explore tid current (outgoing m currentElement) queue foundPaths) = queue @ new"
    "list_all (\<lambda>n. length (node_path n) = Suc (length (node_path current))) new"
    by blast
  from new(2) below
  have less: "\<forall>k \<in># mset (map (remaining maxDepth) new).
      \<exists>j \<in># {#remaining maxDepth current#}. (k, j) \<in> less_than"
    by (auto simp: list_all_iff remaining_def)
  have "(mset (map (remaining maxDepth) queue) + mset (map (remaining maxDepth) new),
         mset (map (remaining maxDepth) queue) + {#remaining maxDepth current#})
          \<in> mult less_than"
    by (rule one_step_implies_mult) (use less in simp_all)
  with new(1)
  show "((m, tid, maxDepth, fst (explore tid current (outgoing m currentElement) queue foundPaths),
          snd (explore tid current (outgoing m currentElement) queue foundPaths),
          calls @ [CallFindElement (node_elementId current),
                   CallOutgoing (el_id currentElement)]),
         (m, tid, maxDepth, current # queue, foundPaths, calls))
      \<in> inv_image (mult less_than)
         (\<lambda>(m, tid, maxDepth, queue, foundPaths, calls).
            mset (map (remaining maxDepth) queue))"
    by simp
qed

definition findRelationshipPaths_handler_traced ::
  "likec4_model \<Rightarrow> paths_args \<Rightarrow> (error + found_path list) \<times> model_call list"
where
  "findRelationshipPaths_handler_traced m args =
     (case findElement m (p_sourceId args) of
        None \<Rightarrow> (Inl NotFound, [CallFindElement (p_sourceId args)])
      | Some source \<Rightarrow>
          (case findElement m (p_targetId args) of
             None \<Rightarrow>
               (Inl NotFound,
                [CallFindElement (p_sourceId args), CallFindElement (p_targetId args)])
           | Some target \<Rightarrow>
               if \<not> (el_id source \<noteq> el_id target)
               then (Inl InvalidArgument,
                     [CallFindElement (p_sourceId args), CallFindElement (p_targetId args)])
               else if isAncestorOf m source target
               then (Inl InvalidArgument,
                     [CallFindElement (p_sourceId args), CallFindElement (p_targetId args),
                      CallIsAncestorOf (el_id source) (el_id target)])
               else if isAncestorOf m target source
               then (Inl InvalidArgument,
                     [CallFindElement (p_sourceId args), CallFindElement (p_targetId args),
                      CallIsAncestorOf (el_id source) (el_id target),
                      CallIsAncestorOf (el_id target) (el_id source)])
               else
                 let run = search_traced m (el_id target) (effective_maxDepth args)
                             [\<lparr>node_elementId = el_id source, node_path = [],
                               node_visited = [el_id source]\<rparr>] []
                             [CallFindElement (p_sourceId args),
                              CallFindElement (p_targetId args),
                              CallIsAncestorOf (el_id source) (el_id target),
                              CallIsAncestorOf (el_id target) (el_id source)]
                 in (Inr (sort_key path_length (fst run)), snd run)))"

definition findRelationshipPaths_traced ::
  "likec4_model \<Rightarrow> paths_args \<Rightarrow> (error + found_path list) \<times> model_call list"
where
  "findRelationshipPaths_traced m args =
     (case z_optional_default (z_int_min_max 1 5) 3 (p_maxDepth args) of
        Inl e \<Rightarrow> (Inl e, [])
      | Inr d \<Rightarrow> findRelationshipPaths_handler_traced m (args\<lparr>p_maxDepth := Some d\<rparr>))"
section \<open>query-incomers-graph\<close>

text \<open>The arguments as the caller sends them, and as the schema hands them on.\<close>

record incomers_args =
  g_elementId :: fqn
  g_includeIndirect :: "bool option"
  g_maxDepth :: "int option"
  g_maxNodes :: "int option"

record incomers_parsed =
  a_elementId :: fqn
  a_includeIndirect :: bool
  a_maxDepth :: int
  a_maxNodes :: int

text \<open>
  \<open>includeIndirect: z.boolean().optional().default(true)\<close>,
  \<open>maxDepth: z.number().int().positive().max(100).optional().default(50)\<close>,
  \<open>maxNodes: z.number().int().positive().max(5000).optional().default(1000)\<close>.
\<close>

definition parse_incomers_args :: "incomers_args \<Rightarrow> error + incomers_parsed" where
  "parse_incomers_args raw =
     (case z_optional_default (z_int_positive_max 100) 50 (g_maxDepth raw) of
        Inl e \<Rightarrow> Inl e
      | Inr d \<Rightarrow>
          (case z_optional_default (z_int_positive_max 5000) 1000 (g_maxNodes raw) of
             Inl e \<Rightarrow> Inl e
           | Inr n \<Rightarrow>
               Inr \<lparr>a_elementId = g_elementId raw,
                    a_includeIndirect = (case g_includeIndirect raw of None \<Rightarrow> True | Some b \<Rightarrow> b),
                    a_maxDepth = d, a_maxNodes = n\<rparr>))"

record incomer_data =
  inc_elementId :: fqn
  relationshipLabel :: "string option"
  technology :: "string option"

record graph_node = entity_out +
  incomers :: "incomer_data list"
  depth :: nat

text \<open>
  The variables the loop updates: \<open>visited\<close>, \<open>nodes\<close>, \<open>actualMaxDepth\<close>, \<open>truncated\<close>.
  \<open>nodes\<close> is a plain object (\<open>const nodes: Record<string, \<dots>> = {}\<close>), given by its own
  keys: these are what the response carries. The loop writes it with
  \<open>nodes[elementId] = {\<dots>}\<close> and never reads it.
\<close>

record traversal =
  visited :: "fqn js_set"
  nodes :: "fqn \<rightharpoonup> graph_node"
  actualMaxDepth :: nat
  truncated :: bool

record incomers_result =
  res_target :: fqn
  totalNodes :: nat
  res_maxDepth :: nat
  res_truncated :: bool
  res_nodes :: "fqn \<rightharpoonup> graph_node"

text \<open>
  One entry of \<open>incomersData\<close>: the label and the technology are set only when the
  relationship's title and technology are truthy.
\<close>

definition incomer_of :: "relationship \<Rightarrow> incomer_data" where
  "incomer_of rel =
     \<lparr>inc_elementId = rel_source rel,
      relationshipLabel = (if falsy (rel_title rel) then None else rel_title rel),
      technology = (if falsy (rel_technology rel) then None else rel_technology rel)\<rparr>"

definition graph_node_of :: "element \<Rightarrow> incomer_data list \<Rightarrow> nat \<Rightarrow> graph_node" where
  "graph_node_of e incomersData d =
     \<lparr>out_id = el_id e, out_name = el_name e, out_kind = el_kind e, out_title = el_title e,
      out_tags = el_tags e, out_metadata = getMetadata e,
      out_includedInViews = includedInViews (views e),
      incomers = incomersData, depth = d\<rparr>"

text \<open>
  The last \<open>for\<close> loop of an iteration: every incomer not yet visited is pushed at
  \<open>depth + 1\<close>.
\<close>

definition enqueue_incomers ::
  "fqn js_set \<Rightarrow> incomer_data list \<Rightarrow> nat \<Rightarrow> (fqn \<times> nat) list \<Rightarrow> (fqn \<times> nat) list" where
  "enqueue_incomers vis incomersData d queue =
     queue @ map (\<lambda>i. (inc_elementId i, d + 1))
               (filter (\<lambda>i. \<not> set_has vis (inc_elementId i)) incomersData)"

text \<open>
  The \<open>while (queue.length > 0)\<close> loop. The node-limit branch is the loop's only
  \<open>break\<close>. Each iteration either visits one more entity, of which there are never more
  than \<open>maxNodes\<close>, or shortens the queue, so the loop terminates.
\<close>

function traverse ::
  "likec4_model \<Rightarrow> rel_filter \<Rightarrow> int \<Rightarrow> int \<Rightarrow> (fqn \<times> nat) list \<Rightarrow> traversal \<Rightarrow> traversal"
where
  "traverse m flt maxDepth maxNodes [] st = st"
| "traverse m flt maxDepth maxNodes ((eid, d) # queue) st =
     (if int d > maxDepth then traverse m flt maxDepth maxNodes queue st
      else if set_has (visited st) eid then traverse m flt maxDepth maxNodes queue st
      else if int (set_size (visited st)) \<ge> maxNodes then st\<lparr>truncated := True\<rparr>
      else
        (case findElement m eid of
           None \<Rightarrow> traverse m flt maxDepth maxNodes queue st
         | Some el \<Rightarrow>
             (let vis = set_add (visited st) eid;
                  incomersData = map incomer_of (incoming m el flt)
              in traverse m flt maxDepth maxNodes
                   (enqueue_incomers vis incomersData d queue)
                   \<lparr>visited = vis,
                    nodes = object_set (nodes st) eid (graph_node_of el incomersData d),
                    actualMaxDepth = max (actualMaxDepth st) d,
                    truncated = truncated st\<rparr>)))"
  by pat_completeness auto
termination
  by (relation "measures
        [\<lambda>(m, flt, maxDepth, maxNodes, queue, st). nat (maxNodes - int (length (visited st))),
         \<lambda>(m, flt, maxDepth, maxNodes, queue, st). length queue]")
     (auto simp: set_size_def set_add_def set_has_def)

text \<open>\<open>const filter = args.includeIndirect ? 'all' : 'direct'\<close>\<close>

definition filter_of :: "incomers_parsed \<Rightarrow> rel_filter" where
  "filter_of args = (if a_includeIndirect args then FilterAll else FilterDirect)"

definition queryIncomersGraph_handler ::
  "likec4_model \<Rightarrow> incomers_parsed \<Rightarrow> error + incomers_result"
where
  "queryIncomersGraph_handler m args =
     (case findElement m (a_elementId args) of
        None \<Rightarrow> Inl NotFound
      | Some targetElement \<Rightarrow>
          let flt = filter_of args;
              maxDepth = min (a_maxDepth args) 100;
              maxNodes = min (a_maxNodes args) 5000;
              st = traverse m flt maxDepth maxNodes [(a_elementId args, 0)]
                     \<lparr>visited = [], nodes = Map.empty, actualMaxDepth = 0, truncated = False\<rparr>
          in Inr \<lparr>res_target = a_elementId args, totalNodes = set_size (visited st),
                  res_maxDepth = actualMaxDepth st, res_truncated = truncated st,
                  res_nodes = nodes st\<rparr>)"

definition queryIncomersGraph :: "likec4_model \<Rightarrow> incomers_args \<Rightarrow> error + incomers_result" where
  "queryIncomersGraph m raw =
     (case parse_incomers_args raw of
        Inl e \<Rightarrow> Inl e
      | Inr args \<Rightarrow> queryIncomersGraph_handler m args)"

section \<open>Hop counts\<close>

text \<open>
  The notions the traversal is measured against. \<open>sources_of m flt u\<close> lists the
  entities one hop upstream of \<open>u\<close>: the sources of the relationships that
  \<open>incoming(flt)\<close> gives for \<open>u\<close>, none when \<open>u\<close> is not an element of the model.
  \<open>at_hops m flt start n\<close> lists the entities that some chain of exactly \<open>n\<close> such hops
  reaches from \<open>start\<close>. The shortest hop count of \<open>v\<close> is the least \<open>n\<close> with \<open>v\<close> in
  \<open>at_hops m flt start n\<close>.
\<close>

definition sources_of :: "likec4_model \<Rightarrow> rel_filter \<Rightarrow> fqn \<Rightarrow> fqn list" where
  "sources_of m flt u =
     (case findElement m u of None \<Rightarrow> [] | Some el \<Rightarrow> map rel_source (incoming m el flt))"

fun at_hops :: "likec4_model \<Rightarrow> rel_filter \<Rightarrow> fqn \<Rightarrow> nat \<Rightarrow> fqn list" where
  "at_hops m flt start 0 = [start]"
| "at_hops m flt start (Suc n) = concat (map (sources_of m flt) (at_hops m flt start n))"

text \<open>
  Everything within \<open>k\<close> hops of \<open>start\<close>, and the closure proper: the elements of the
  model among them.
\<close>

definition reach_within :: "likec4_model \<Rightarrow> rel_filter \<Rightarrow> fqn \<Rightarrow> nat \<Rightarrow> fqn list" where
  "reach_within m flt start k = concat (map (at_hops m flt start) [0..<Suc k])"

definition closure_within :: "likec4_model \<Rightarrow> rel_filter \<Rightarrow> fqn \<Rightarrow> nat \<Rightarrow> fqn set" where
  "closure_within m flt start k =
     set (filter (\<lambda>v. findElement m v \<noteq> None) (reach_within m flt start k))"

section \<open>Loop invariants\<close>





text \<open>
  Invariant of the incomers traversal. It speaks of the node that each visited entity
  was given (\<open>gn\<close>); the \<open>nodes\<close> object holds these nodes under every key but
  \<open>__proto__\<close>.
  \<^item> \<open>nodes_ok\<close>: the entities given a node are the visited ones, each an element of
    the model, and its node holds its shortest hop count, which is within \<open>maxDepth\<close>.
  \<^item> \<open>queue_ok\<close>: the queue is ordered by depth and spans at most two levels; an entry
    is reachable in as many hops as its depth says; no visited entity is deeper than a
    queued entry.
  \<^item> \<open>frontier_ok\<close>: each incomer of a visited entity is visited, queued one level
    deeper, missing from the model, or beyond \<open>maxDepth\<close>.
  \<^item> \<open>root_ok\<close>: the same for the start entity at depth 0.
\<close>

definition own_keys :: "(fqn \<rightharpoonup> 'a) \<Rightarrow> (fqn \<rightharpoonup> 'a)" where
  "own_keys g = g(''__proto__'' := None)"

definition nodes_ok ::
  "likec4_model \<Rightarrow> rel_filter \<Rightarrow> int \<Rightarrow> fqn \<Rightarrow> (fqn \<rightharpoonup> graph_node) \<Rightarrow> traversal \<Rightarrow> bool"
where
  "nodes_ok m flt maxDepth start gn st \<longleftrightarrow>
     nodes st = own_keys gn \<and> dom gn = set (visited st) \<and> distinct (visited st) \<and>
     (\<forall>v n. gn v = Some n \<longrightarrow>
        v \<in> set (at_hops m flt start (depth n))
        \<and> (\<forall>k<depth n. v \<notin> set (at_hops m flt start k))
        \<and> findElement m v \<noteq> None \<and> int (depth n) \<le> maxDepth)"

definition queue_ok ::
  "likec4_model \<Rightarrow> rel_filter \<Rightarrow> fqn \<Rightarrow> (fqn \<rightharpoonup> graph_node) \<Rightarrow> (fqn \<times> nat) list \<Rightarrow> bool"
where
  "queue_ok m flt start gn q \<longleftrightarrow>
     sorted (map snd q) \<and> (\<forall>x\<in>set q. snd x \<le> Suc (snd (hd q)))
     \<and> (\<forall>x\<in>set q. fst x \<in> set (at_hops m flt start (snd x)))
     \<and> (\<forall>v n. gn v = Some n \<longrightarrow> (\<forall>x\<in>set q. depth n \<le> snd x))"

definition frontier_ok ::
  "likec4_model \<Rightarrow> rel_filter \<Rightarrow> int \<Rightarrow> (fqn \<rightharpoonup> graph_node) \<Rightarrow> (fqn \<times> nat) list \<Rightarrow>
     traversal \<Rightarrow> bool"
where
  "frontier_ok m flt maxDepth gn q st \<longleftrightarrow>
     (\<forall>u n v. gn u = Some n \<longrightarrow> v \<in> set (sources_of m flt u) \<longrightarrow>
        v \<in> set (visited st) \<or> (v, Suc (depth n)) \<in> set q \<or> findElement m v = None
        \<or> maxDepth < int (Suc (depth n)))"

definition root_ok ::
  "likec4_model \<Rightarrow> int \<Rightarrow> fqn \<Rightarrow> (fqn \<times> nat) list \<Rightarrow> traversal \<Rightarrow> bool" where
  "root_ok m maxDepth start q st \<longleftrightarrow>
     start \<in> set (visited st) \<or> (start, 0) \<in> set q \<or> findElement m start = None \<or> maxDepth < 0"

definition bfs_inv_at ::
  "likec4_model \<Rightarrow> rel_filter \<Rightarrow> int \<Rightarrow> int \<Rightarrow> fqn \<Rightarrow> (fqn \<rightharpoonup> graph_node) \<Rightarrow>
     (fqn \<times> nat) list \<Rightarrow> traversal \<Rightarrow> bool"
where
  "bfs_inv_at m flt maxDepth maxNodes start gn q st \<longleftrightarrow>
     nodes_ok m flt maxDepth start gn st \<and> queue_ok m flt start gn q
     \<and> frontier_ok m flt maxDepth gn q st \<and> root_ok m maxDepth start q st
     \<and> \<not> truncated st \<and> int (length (visited st)) \<le> maxNodes"

definition bfs_inv ::
  "likec4_model \<Rightarrow> rel_filter \<Rightarrow> int \<Rightarrow> int \<Rightarrow> fqn \<Rightarrow> (fqn \<times> nat) list \<Rightarrow> traversal \<Rightarrow> bool"
where
  "bfs_inv m flt maxDepth maxNodes start q st \<longleftrightarrow>
     (\<exists>gn. bfs_inv_at m flt maxDepth maxNodes start gn q st)"

text \<open>
  What the invariant leaves when the loop ends: either it stopped at the node limit,
  with an unvisited entity in reach, or the queue ran empty.
\<close>

definition bfs_post_at ::
  "likec4_model \<Rightarrow> rel_filter \<Rightarrow> int \<Rightarrow> int \<Rightarrow> fqn \<Rightarrow> (fqn \<rightharpoonup> graph_node) \<Rightarrow> traversal \<Rightarrow> bool"
where
  "bfs_post_at m flt maxDepth maxNodes start gn st \<longleftrightarrow>
     nodes_ok m flt maxDepth start gn st \<and> int (length (visited st)) \<le> maxNodes
     \<and> (findElement m start \<noteq> None \<and> 0 \<le> maxDepth \<and> 0 < maxNodes \<longrightarrow>
          start \<in> set (visited st))
     \<and> (if truncated st
         then maxNodes \<le> int (length (visited st))
              \<and> (\<exists>e d. int d \<le> maxDepth \<and> e \<in> set (at_hops m flt start d)
                     \<and> e \<notin> set (visited st))
         else frontier_ok m flt maxDepth gn [] st)"

definition bfs_post ::
  "likec4_model \<Rightarrow> rel_filter \<Rightarrow> int \<Rightarrow> int \<Rightarrow> fqn \<Rightarrow> traversal \<Rightarrow> bool"
where
  "bfs_post m flt maxDepth maxNodes start st \<longleftrightarrow>
     (\<exists>gn. bfs_post_at m flt maxDepth maxNodes start gn st)"

section \<open>Example snapshots\<close>

text \<open>
  A lower-casing function that folds the ASCII letters and leaves every other character
  as it is. On the ASCII strings of the examples below it is what the runtime's
  \<open>toLowerCase\<close> computes.
\<close>

definition lower_char :: "char \<Rightarrow> char" where
  "lower_char c =
     (let n = (of_char c :: nat) in if 65 \<le> n \<and> n \<le> 90 then char_of (n + 32) else c)"

definition ascii_lower :: "string \<Rightarrow> string" where
  "ascii_lower s = map lower_char s"

text \<open>
  A small snapshot used to run the tools on concrete input: three elements \<open>a\<close>, \<open>b\<close>,
  \<open>c\<close> in a chain \<open>a \<rightarrow> b \<rightarrow> c\<close>, where \<open>a\<close> is tagged \<open>public\<close> and \<open>api\<close> and owned by two
  teams.
\<close>

definition mk_element :: "fqn \<Rightarrow> string list \<Rightarrow> (string \<rightharpoonup> metadata_value) \<Rightarrow> element" where
  "mk_element i ts md =
     \<lparr>el_id = i, el_name = i, el_kind = ''component'', el_title = i, el_tags = ts,
      getMetadata = md, views = []\<rparr>"

definition mk_rel :: "fqn \<Rightarrow> fqn \<Rightarrow> relationship" where
  "mk_rel s t =
     \<lparr>rel_source = s, rel_target = t, rel_kind = None, rel_title = None,
      rel_description = None, rel_technology = None, rel_tags = []\<rparr>"

definition el_a :: element where
  "el_a = mk_element ''a'' [''public'', ''api'']
            [''owner'' \<mapsto> Array [''platform-team'', ''web-team'']]"

definition el_b :: element where
  "el_b = mk_element ''b'' [] Map.empty"

definition el_c :: element where
  "el_c = mk_element ''c'' [] Map.empty"

definition chain_model :: likec4_model where
  "chain_model =
     \<lparr>findElement = [''a'' \<mapsto> el_a, ''b'' \<mapsto> el_b, ''c'' \<mapsto> el_c],
      elements = [el_a, el_b, el_c],
      deployment_elements = [],
      outgoing = (\<lambda>e. if el_id e = ''a'' then [mk_rel ''a'' ''b'']
                       else if el_id e = ''b'' then [mk_rel ''b'' ''c''] else []),
      incoming = (\<lambda>e f. if el_id e = ''b'' then [mk_rel ''a'' ''b'']
                         else if el_id e = ''c'' then [mk_rel ''b'' ''c''] else []),
      isAncestorOf = (\<lambda>x y. False)\<rparr>"

text \<open>
  A fan: \<open>a\<close> has 101 relationships to \<open>b\<close>, told apart by their titles.
\<close>

definition fan_rels :: "relationship list" where
  "fan_rels = map (\<lambda>i. (mk_rel ''a'' ''b'')\<lparr>rel_title := Some (replicate i CHR ''r'')\<rparr>) [1..<102]"

definition fan_model :: likec4_model where
  "fan_model =
     \<lparr>findElement = [''a'' \<mapsto> el_a, ''b'' \<mapsto> el_b],
      elements = [el_a, el_b],
      deployment_elements = [],
      outgoing = (\<lambda>e. if el_id e = ''a'' then fan_rels else []),
      incoming = (\<lambda>e f. if el_id e = ''b'' then fan_rels else []),
      isAncestorOf = (\<lambda>x y. False)\<rparr>"

text \<open>
  A diamond: \<open>a \<rightarrow> d\<close> directly, and through \<open>b\<close> and through \<open>c\<close>.
\<close>

definition el_d :: element where
  "el_d = mk_element ''d'' [] Map.empty"

definition diamond_model :: likec4_model where
  "diamond_model =
     \<lparr>findElement = [''a'' \<mapsto> el_a, ''b'' \<mapsto> el_b, ''c'' \<mapsto> el_c, ''d'' \<mapsto> el_d],
      elements = [el_a, el_b, el_c, el_d],
      deployment_elements = [],
      outgoing = (\<lambda>e. if el_id e = ''a''
                         then [mk_rel ''a'' ''b'', mk_rel ''a'' ''c'', mk_rel ''a'' ''d'']
                       else if el_id e = ''b'' then [mk_rel ''b'' ''d'']
                       else if el_id e = ''c'' then [mk_rel ''c'' ''d''] else []),
      incoming = (\<lambda>e f. if el_id e = ''d''
                           then [mk_rel ''b'' ''d'', mk_rel ''c'' ''d'', mk_rel ''a'' ''d'']
                         else if el_id e = ''b'' then [mk_rel ''a'' ''b'']
                         else if el_id e = ''c'' then [mk_rel ''a'' ''c''] else []),
      isAncestorOf = (\<lambda>x y. False)\<rparr>"

text \<open>
  A nested pair: \<open>shop\<close> contains \<open>shop.api\<close>.
\<close>

definition el_shop :: element where
  "el_shop = mk_element ''shop'' [] Map.empty"

definition el_api :: element where
  "el_api = mk_element ''shop.api'' [] Map.empty"

definition nested_model :: likec4_model where
  "nested_model =
     \<lparr>findElement = [''shop'' \<mapsto> el_shop, ''shop.api'' \<mapsto> el_api],
      elements = [el_shop, el_api],
      deployment_elements = [],
      outgoing = (\<lambda>e. []),
      incoming = (\<lambda>e f. []),
      isAncestorOf = (\<lambda>x y. el_id x = ''shop'' \<and> el_id y = ''shop.api'')\<rparr>"

text \<open>
  An element whose \<open>labels\<close> entry holds an empty string after a non-empty one.
\<close>

definition el_x :: element where
  "el_x = mk_element ''x'' [] [''labels'' \<mapsto> Array [''beta'', []]]"

definition labels_model :: likec4_model where
  "labels_model =
     \<lparr>findElement = [''x'' \<mapsto> el_x],
      elements = [el_x],
      deployment_elements = [],
      outgoing = (\<lambda>e. []),
      incoming = (\<lambda>e f. []),
      isAncestorOf = (\<lambda>x y. False)\<rparr>"


text \<open>
  An element whose id is \<open>__proto__\<close>, and \<open>a\<close> depending on it.
\<close>

definition el_proto :: element where
  "el_proto = mk_element ''__proto__'' [] Map.empty"

definition proto_model :: likec4_model where
  "proto_model =
     \<lparr>findElement = [''__proto__'' \<mapsto> el_proto, ''a'' \<mapsto> el_a],
      elements = [el_proto, el_a],
      deployment_elements = [],
      outgoing = (\<lambda>e. if el_id e = ''a'' then [mk_rel ''a'' ''__proto__''] else []),
      incoming = (\<lambda>e f. if el_id e = ''__proto__'' then [mk_rel ''a'' ''__proto__''] else []),
      isAncestorOf = (\<lambda>x y. False)\<rparr>"


section \<open>Properties of query-by-tags\<close>

lemma tags_loop_no_match:
  "(\<And>tags. \<not> matchesTags args tags) \<Longrightarrow> tags_loop args es results = results"
  by (induction es arbitrary: results) auto

lemma matchesTags_conflict:
  assumes "allOf args = Some a" and "noneOf args = Some n" and "t \<in> set a" and "t \<in> set n"
  shows "\<not> matchesTags args tags"
proof (cases "list_all (\<lambda>tag. tag \<in> tags) a")
  case False
  with assms show ?thesis
    by (auto simp: matchesTags_def given_nonempty_def)
next
  case True
  with assms have "t \<in> tags" by (auto simp: list_all_iff)
  with assms have "list_ex (\<lambda>tag. tag \<in> tags) n" by (auto simp: list_ex_iff)
  moreover from assms have "given_nonempty (noneOf args)"
    by (auto simp: given_nonempty_def)
  ultimately show ?thesis using assms
    by (simp add: matchesTags_def)
qed

text \<open>
  Claim C8. When some tag stands in both \<open>allOf\<close> and \<open>noneOf\<close>, \<open>matchesTags\<close> is false
  for every tag set, and the query succeeds with no match at all, whatever elements and
  deployment nodes the model holds.
\<close>

theorem queryByTags_conflicting_tags:
  assumes "allOf args = Some a" and "noneOf args = Some n" and "t \<in> set a" and "t \<in> set n"
  shows "matchesTags args tags = False \<and> queryByTags m args = Inr []"
proof -
  have no: "\<And>tags. \<not> matchesTags args tags"
    using assms by (rule matchesTags_conflict)
  have "given_nonempty (allOf args)"
    using assms by (auto simp: given_nonempty_def)
  then have "queryByTags m args = Inr []"
    by (simp add: queryByTags_def Let_def tags_loop_no_match [OF no])
  with no show ?thesis by simp
qed

theorem queryByTags_conflicting_tags_witness:
  "matchesTags \<lparr>allOf = Some [''public''], anyOf = None, noneOf = Some [''api'', ''public'']\<rparr>
     (set (el_tags el_a)) = False
   \<and> queryByTags chain_model
       \<lparr>allOf = Some [''public''], anyOf = None, noneOf = Some [''api'', ''public'']\<rparr> = Inr []"
  by (rule queryByTags_conflicting_tags [where a = "[''public'']"
        and n = "[''api'', ''public'']" and t = "''public''"]) simp_all

section \<open>Properties of query-by-metadata\<close>

lemma metadata_loop_no_match:
  "(\<And>mv. matches lower mv (search_value args) mode = Inr False) \<Longrightarrow>
     metadata_loop lower args mode es results = Inr results"
  by (induction es arbitrary: results) (auto split: option.splits)

text \<open>
  Claim C10. With the value parameter omitted, a query in exact mode (also when the
  mode is left to its default) or in contains mode succeeds and returns the empty
  result list, whatever key is asked for.
\<close>

theorem queryByMetadata_value_omitted:
  assumes "search_value args = None" and "matchMode args \<noteq> Some Exists"
  shows "queryByMetadata lower m args = Inr []"
proof -
  define mode where "mode = (case matchMode args of None \<Rightarrow> Exact | Some md \<Rightarrow> md)"
  from assms(2) have "mode \<noteq> Exists"
    by (auto simp: mode_def split: option.splits)
  with assms(1) have no: "\<And>mv. matches lower mv (search_value args) mode = Inr False"
    by (cases mode) (simp_all add: matches_def)
  show ?thesis
    unfolding queryByMetadata_def mode_def [symmetric]
    by (simp add: Let_def metadata_loop_no_match [OF no])
qed

theorem queryByMetadata_value_omitted_witness:
  "queryByMetadata ascii_lower chain_model
     \<lparr>key = ''owner'', search_value = None, matchMode = Some Contains\<rparr> = Inr []
   \<and> queryByMetadata ascii_lower chain_model
       \<lparr>key = ''owner'', search_value = None, matchMode = None\<rparr> = Inr []"
proof -
  have "queryByMetadata ascii_lower chain_model
          \<lparr>key = ''owner'', search_value = None, matchMode = Some Contains\<rparr> = Inr []"
    by (rule queryByMetadata_value_omitted) simp_all
  moreover have "queryByMetadata ascii_lower chain_model
          \<lparr>key = ''owner'', search_value = None, matchMode = None\<rparr> = Inr []"
    by (rule queryByMetadata_value_omitted) simp_all
  ultimately show ?thesis by simp
qed

text \<open>
  What \<open>matches\<close> decides on an entry of the metadata, mode by mode, and what
  \<open>getMatchedValue\<close> reports for an entry that matched.
\<close>

lemma js_some_total:
  "js_some (\<lambda>v. Inr (P v)) vs = Inr (\<exists>v\<in>set vs. P v)"
  by (induction vs) auto

lemma js_find_total:
  "js_find (\<lambda>v. Inr (P v)) vs = Inr (find P vs)"
  by (induction vs) auto

lemma lower_includes_JsString:
  "lower_includes lower sl \<circ> JsString = (\<lambda>s. Inr (str_includes (lower s) sl))"
  by (auto simp: lower_includes_def)

lemma js_some_map: "js_some p (map f vs) = js_some (p \<circ> f) vs"
  by (induction vs) (auto split: sum.splits)

lemma js_find_map: "js_find p (map f vs) = map_sum id (map_option f) (js_find (p \<circ> f) vs)"
  by (induction vs) (auto split: sum.splits)

lemma matches_Exists: "matches lower mv sv Exists = Inr True"
  by (simp add: matches_def)

lemma matches_Exact_iff:
  "matches lower (Own mv) (Some s) Exact = Inr (s \<in> set (strings_of mv))"
  by (auto simp: matches_def strict_equals_def [abs_def] js_some_total)

lemma matches_Contains_iff:
  "matches lower (Own mv) (Some s) Contains =
     Inr (\<exists>v\<in>set (strings_of mv). sublist (lower s) (lower v))"
  by (simp add: matches_def js_some_map lower_includes_JsString js_some_total
      str_includes_def)

lemma getMatchedValue_Exists:
  "strings_of mv = v # vs \<Longrightarrow> getMatchedValue lower (Own mv) sv Exists = Inr (JsString v)"
  by (simp add: getMatchedValue_def first_value_def or_string_def js_falsy_def)

lemma find_member:
  assumes "x \<in> set xs" and "P x"
  obtains y where "find P xs = Some y" and "P y"
  using assms by (cases "find P xs") (auto simp: find_None_iff find_Some_iff)

lemma getMatchedValue_Exact:
  assumes "s \<in> set (strings_of mv)" and "s \<noteq> []"
  shows "getMatchedValue lower (Own mv) (Some s) Exact = Inr (JsString s)"
proof -
  from assms(1) have "JsString s \<in> set (map JsString (strings_of mv))" by simp
  then obtain y where "find (\<lambda>v. v = JsString s) (map JsString (strings_of mv)) = Some y"
    and "y = JsString s"
    by (rule find_member) simp
  then show ?thesis using assms(2)
    by (simp add: getMatchedValue_def strict_equals_def [abs_def] js_find_total
        or_string_def or_undef_def js_falsy_def)
qed

lemma getMatchedValue_Contains:
  assumes low: "lower [] = []"
    and hit: "v \<in> set (strings_of mv)" "sublist (lower s) (lower v)"
  shows "\<exists>w. find (\<lambda>v. sublist (lower s) (lower v)) (strings_of mv) = Some w
           \<and> getMatchedValue lower (Own mv) (Some s) Contains = Inr (JsString w)"
proof -
  let ?P = "\<lambda>v. sublist (lower s) (lower v)"
  from hit obtain w where w: "find ?P (strings_of mv) = Some w" and pw: "?P w"
    by (rule find_member)
  have found: "js_find (lower_includes lower (lower s)) (map JsString (strings_of mv))
      = Inr (Some (JsString w))"
    using w by (simp add: js_find_map lower_includes_JsString js_find_total str_includes_def)
  have "getMatchedValue lower (Own mv) (Some s) Contains = Inr (JsString w)"
  proof (cases "w = []")
    case False
    with found show ?thesis
      by (simp add: getMatchedValue_def Let_def or_string_def or_undef_def js_falsy_def)
  next
    case True
    with pw low have empty: "lower s = []" by simp
    from w obtain x xs where ss: "strings_of mv = x # xs"
      by (cases "strings_of mv") auto
    with w empty have "x = w" by simp
    with found ss True show ?thesis
      by (simp add: getMatchedValue_def Let_def or_string_def or_undef_def js_falsy_def
          first_value_def)
  qed
  with w show ?thesis by blast
qed

text \<open>
  A key that is a property name of \<open>Object.prototype\<close> is found in every metadata
  object. In exists mode the entity matches; in contains mode with a search value the
  helper calls \<open>toLowerCase\<close> on the inherited value, and the call fails.
\<close>

lemma queryByMetadata_prototype_key:
  "map_sum id (map out_id)
     (queryByMetadata lower labels_model
        \<lparr>key = ''constructor'', search_value = None, matchMode = Some Exists\<rparr>) = Inr [''x'']
   \<and> queryByMetadata lower labels_model
       \<lparr>key = ''constructor'', search_value = Some ''x'', matchMode = Some Contains\<rparr>
     = Inl TypeError"
  by (simp add: queryByMetadata_def labels_model_def el_x_def mk_element_def limit_def
      object_get_def object_prototype_keys_def matches_def getMatchedValue_def
      lower_includes_def first_value_def or_string_def js_falsy_def metadata_result_def)

text \<open>
  Claim C7 at the input where the code departs from it. The \<open>labels\<close> entry of \<open>x\<close> is
  \<open>["beta", ""]\<close> and the query asks, in exact mode, for the empty string. The entity
  matches, and the first element equal to the search value is the empty string, but
  the reported \<open>matchedValue\<close> is \<open>"beta"\<close>: the empty string that \<open>find\<close> returns is
  falsy, so \<open>||\<close> falls through to \<open>values[0]\<close>.
\<close>

theorem queryByMetadata_empty_match_misreported:
  "map_sum id (map matchedValue)
     (queryByMetadata lower labels_model
        \<lparr>key = ''labels'', search_value = Some [], matchMode = Some Exact\<rparr>)
     = Inr [JsString ''beta'']
   \<and> js_find (strict_equals []) (values_of (Own (Array [''beta'', []])))
     = Inr (Some (JsString []))"
  by (simp add: queryByMetadata_def labels_model_def el_x_def mk_element_def limit_def
      object_get_def matches_def getMatchedValue_def strict_equals_def first_value_def
      or_string_def or_undef_def js_falsy_def metadata_result_def)

section \<open>Properties of the numeric options\<close>





section \<open>Properties of find-relationship-paths\<close>

lemma step_target_pathStep [simp]: "step_target (pathStep rel) = rel_target rel"
  by (simp add: pathStep_def)




lemma parsed_maxDepth:
  assumes "z_optional_default (z_int_min_max 1 5) 3 (p_maxDepth args) = Inr d"
  shows "effective_maxDepth (args\<lparr>p_maxDepth := Some d\<rparr>) = effective_maxDepth args"
    and "effective_maxDepth args = d" and "1 \<le> d" and "d \<le> 5"
  using assms
  by (auto simp: z_optional_default_def z_int_min_max_def effective_maxDepth_def
      split: option.splits if_splits)

lemma findRelationshipPaths_Inr:
  assumes "findRelationshipPaths m args = Inr ps"
  obtains source target where
    "findElement m (p_sourceId args) = Some source"
    "findElement m (p_targetId args) = Some target"
    "el_id source \<noteq> el_id target"
    "\<not> isAncestorOf m source target" "\<not> isAncestorOf m target source"
    "ps = sort_key path_length (discovered m source target (effective_maxDepth args))"
    "1 \<le> effective_maxDepth args" "effective_maxDepth args \<le> 5"
proof -
  from assms obtain d where d: "z_optional_default (z_int_min_max 1 5) 3 (p_maxDepth args) = Inr d"
    and h: "findRelationshipPaths_handler m (args\<lparr>p_maxDepth := Some d\<rparr>) = Inr ps"
    by (auto simp: findRelationshipPaths_def split: sum.splits)
  note md = parsed_maxDepth [OF d]
  from h md that show thesis
    by (auto simp: findRelationshipPaths_handler_def Let_def split: option.splits if_splits)
qed






text \<open>
  Claim C9. The paths of a result are in non-decreasing order of \<open>length\<close>, and for
  every length the paths of that length stand in the order in which the search found
  them.
\<close>

theorem findRelationshipPaths_sorted_stable:
  assumes "findRelationshipPaths m args = Inr ps"
  shows "sorted (map path_length ps)
     \<and> (\<exists>source target.
          findElement m (p_sourceId args) = Some source
        \<and> findElement m (p_targetId args) = Some target
        \<and> (\<forall>k. filter (\<lambda>p. path_length p = k) ps =
                 filter (\<lambda>p. path_length p = k)
                   (discovered m source target (effective_maxDepth args))))"
proof -
  from assms obtain source target where st:
    "findElement m (p_sourceId args) = Some source"
    "findElement m (p_targetId args) = Some target"
    "ps = sort_key path_length (discovered m source target (effective_maxDepth args))"
    by (rule findRelationshipPaths_Inr)
  from st(3) have "sorted (map path_length ps)" by simp
  moreover from st(3) have "\<forall>k. filter (\<lambda>p. path_length p = k) ps =
                 filter (\<lambda>p. path_length p = k)
                   (discovered m source target (effective_maxDepth args))"
    by (simp add: sort_key_stable)
  ultimately show ?thesis using st(1,2) by blast
qed

theorem findRelationshipPaths_sorted_stable_witness:
  "\<exists>ps. findRelationshipPaths diamond_model
           \<lparr>p_sourceId = ''a'', p_targetId = ''d'', p_maxDepth = None\<rparr> = Inr ps
     \<and> map path_length ps = [1, 2, 2]
     \<and> sorted (map path_length ps)
     \<and> filter (\<lambda>p. path_length p = 2) ps =
         filter (\<lambda>p. path_length p = 2) (discovered diamond_model el_a el_d 3)"
proof -
  let ?args = "\<lparr>p_sourceId = ''a'', p_targetId = ''d'', p_maxDepth = None\<rparr>"
  let ?ps = "[\<lparr>path_length = 1, steps = [pathStep (mk_rel ''a'' ''d'')]\<rparr>,
              \<lparr>path_length = 2,
               steps = [pathStep (mk_rel ''a'' ''b''), pathStep (mk_rel ''b'' ''d'')]\<rparr>,
              \<lparr>path_length = 2,
               steps = [pathStep (mk_rel ''a'' ''c''), pathStep (mk_rel ''c'' ''d'')]\<rparr>]"
  have run: "findRelationshipPaths diamond_model ?args = Inr ?ps"
    by code_simp
  have src: "findElement diamond_model ''a'' = Some el_a"
    and tgt: "findElement diamond_model ''d'' = Some el_d"
    by (simp_all add: diamond_model_def)
  have eff: "effective_maxDepth ?args = 3"
    by (simp add: effective_maxDepth_def)
  from findRelationshipPaths_sorted_stable [OF run] obtain source target where
    sorted: "sorted (map path_length ?ps)"
    and st: "findElement diamond_model (p_sourceId ?args) = Some source"
      "findElement diamond_model (p_targetId ?args) = Some target"
    and stable: "\<forall>k. filter (\<lambda>p. path_length p = k) ?ps =
        filter (\<lambda>p. path_length p = k)
          (discovered diamond_model source target (effective_maxDepth ?args))"
    by blast
  from st src tgt have "source = el_a" "target = el_d" by simp_all
  with stable eff have keep: "filter (\<lambda>p. path_length p = 2) ?ps =
         filter (\<lambda>p. path_length p = 2) (discovered diamond_model el_a el_d 3)"
    by metis
  show ?thesis
  proof (intro exI [of _ ?ps] conjI)
    show "findRelationshipPaths diamond_model ?args = Inr ?ps" by (rule run)
    show "map path_length ?ps = [1, 2, 2]" by simp
    show "sorted (map path_length ?ps)" by (rule sorted)
    show "filter (\<lambda>p. path_length p = 2) ?ps =
         filter (\<lambda>p. path_length p = 2) (discovered diamond_model el_a el_d 3)"
      by (rule keep)
  qed
qed

lemma search_traced_fst:
  "fst (search_traced m tid maxDepth queue foundPaths calls)
     = search m tid maxDepth queue foundPaths"
  by (induction m tid maxDepth queue foundPaths calls rule: search_traced.induct)
     (simp_all split: option.splits)

lemma search_traced_calls:
  "\<exists>rest. snd (search_traced m tid maxDepth queue foundPaths calls) = calls @ rest
      \<and> (\<forall>c\<in>set rest. \<forall>x y. c \<noteq> CallIsAncestorOf x y)"
proof (induction m tid maxDepth queue foundPaths calls rule: search_traced.induct)
  case (1 m tid maxDepth foundPaths calls)
  then show ?case by simp
next
  case (2 m tid maxDepth current queue foundPaths calls)
  show ?case
  proof (cases "length foundPaths < maxPaths")
    case False
    then show ?thesis by simp
  next
    case below: True
    show ?thesis
    proof (cases "maxDepth \<le> int (length (node_path current))")
      case True
      with below "2.IH"(1) show ?thesis by simp
    next
      case depth: False
      show ?thesis
      proof (cases "findElement m (node_elementId current)")
        case None
        from "2.IH"(2) [OF below depth None] obtain rest where
          "snd (search_traced m tid maxDepth queue foundPaths
                  (calls @ [CallFindElement (node_elementId current)]))
             = (calls @ [CallFindElement (node_elementId current)]) @ rest"
          "\<forall>c\<in>set rest. \<forall>x y. c \<noteq> CallIsAncestorOf x y"
          by blast
        with below depth None show ?thesis
          by (intro exI [of _ "CallFindElement (node_elementId current) # rest"]) simp
      next
        case (Some currentElement)
        from "2.IH"(3) [OF below depth Some] obtain rest where
          "snd (search_traced m tid maxDepth
                  (fst (explore tid current (outgoing m currentElement) queue foundPaths))
                  (snd (explore tid current (outgoing m currentElement) queue foundPaths))
                  (calls @ [CallFindElement (node_elementId current),
                            CallOutgoing (el_id currentElement)]))
             = (calls @ [CallFindElement (node_elementId current),
                         CallOutgoing (el_id currentElement)]) @ rest"
          "\<forall>c\<in>set rest. \<forall>x y. c \<noteq> CallIsAncestorOf x y"
          by blast
        with below depth Some show ?thesis
          by (intro exI [of _ "CallFindElement (node_elementId current)
                  # CallOutgoing (el_id currentElement) # rest"]) simp
      qed
    qed
  qed
qed

lemma findRelationshipPaths_handler_traced_fst:
  "fst (findRelationshipPaths_handler_traced m args) = findRelationshipPaths_handler m args"
  by (auto simp: findRelationshipPaths_handler_traced_def findRelationshipPaths_handler_def
      discovered_def search_traced_fst Let_def split: option.splits)

lemma findRelationshipPaths_traced_fst:
  "fst (findRelationshipPaths_traced m args) = findRelationshipPaths m args"
  by (simp add: findRelationshipPaths_traced_def findRelationshipPaths_def
      findRelationshipPaths_handler_traced_fst split: sum.splits)

lemma findRelationshipPaths_handler_traced_outgoing:
  assumes "CallOutgoing e \<in> set (snd (findRelationshipPaths_handler_traced m args))"
  shows "\<exists>ps. fst (findRelationshipPaths_handler_traced m args) = Inr ps"
  using assms
  by (auto simp: findRelationshipPaths_handler_traced_def Let_def
      split: option.splits if_splits)

text \<open>
  Claim C3, as the code has it. The schema and the two lookups come first. When the
  arguments pass the schema and both ids resolve, a call whose source and target are
  the same element, or one of which is an ancestor of the other, fails with
  \<open>InvalidArgument\<close>, and all it has done by then is the two lookups and the ancestor
  tests: no \<open>outgoing\<close> was read and no frontier entry looked up. When an id does not
  resolve the call fails with \<open>NotFound\<close> after the lookups alone. In every run a call
  of \<open>outgoing\<close> occurs only if the call returns paths, and the calls of a run that
  returns paths begin with the four validation calls, none of which recurs later.
  The traced run returns what the tool returns.
\<close>

theorem findRelationshipPaths_validation_first:
  "fst (findRelationshipPaths_traced m args) = findRelationshipPaths m args
   \<and> ((case p_maxDepth args of None \<Rightarrow> True | Some d \<Rightarrow> 1 \<le> d \<and> d \<le> 5)
      \<and> findElement m (p_sourceId args) = Some source
      \<and> findElement m (p_targetId args) = Some target
      \<and> (p_sourceId args = p_targetId args
           \<or> isAncestorOf m source target \<or> isAncestorOf m target source) \<longrightarrow>
      findRelationshipPaths m args = Inl InvalidArgument
      \<and> findRelationshipPaths_traced m args =
          (Inl InvalidArgument,
           [CallFindElement (p_sourceId args), CallFindElement (p_targetId args)]
           @ (if el_id source = el_id target then []
              else if isAncestorOf m source target
                then [CallIsAncestorOf (el_id source) (el_id target)]
              else [CallIsAncestorOf (el_id source) (el_id target),
                    CallIsAncestorOf (el_id target) (el_id source)])))
   \<and> ((case p_maxDepth args of None \<Rightarrow> True | Some d \<Rightarrow> 1 \<le> d \<and> d \<le> 5)
      \<and> (findElement m (p_sourceId args) = None \<or> findElement m (p_targetId args) = None) \<longrightarrow>
      findRelationshipPaths m args = Inl NotFound
      \<and> findRelationshipPaths_traced m args =
          (Inl NotFound,
           if findElement m (p_sourceId args) = None then [CallFindElement (p_sourceId args)]
           else [CallFindElement (p_sourceId args), CallFindElement (p_targetId args)]))
   \<and> (CallOutgoing e \<in> set (snd (findRelationshipPaths_traced m args)) \<longrightarrow>
        (\<exists>ps. findRelationshipPaths m args = Inr ps))
   \<and> (findRelationshipPaths m args = Inr ps \<longrightarrow>
        (\<exists>s t rest.
            findElement m (p_sourceId args) = Some s \<and> findElement m (p_targetId args) = Some t
          \<and> snd (findRelationshipPaths_traced m args) =
              [CallFindElement (p_sourceId args), CallFindElement (p_targetId args),
               CallIsAncestorOf (el_id s) (el_id t), CallIsAncestorOf (el_id t) (el_id s)] @ rest
          \<and> (\<forall>c\<in>set rest. \<forall>x y. c \<noteq> CallIsAncestorOf x y)))"
proof (intro conjI impI)
  show "fst (findRelationshipPaths_traced m args) = findRelationshipPaths m args"
    by (rule findRelationshipPaths_traced_fst)
next
  assume h: "(case p_maxDepth args of None \<Rightarrow> True | Some d \<Rightarrow> 1 \<le> d \<and> d \<le> 5)
      \<and> findElement m (p_sourceId args) = Some source
      \<and> findElement m (p_targetId args) = Some target
      \<and> (p_sourceId args = p_targetId args
           \<or> isAncestorOf m source target \<or> isAncestorOf m target source)"
  then obtain d where
    d: "z_optional_default (z_int_min_max 1 5) 3 (p_maxDepth args) = Inr d"
    by (auto simp: z_optional_default_def z_int_min_max_def split: option.splits)
  from h have same: "el_id source = el_id target
         \<or> isAncestorOf m source target \<or> isAncestorOf m target source"
    by auto
  with h d show traced: "findRelationshipPaths_traced m args =
          (Inl InvalidArgument,
           [CallFindElement (p_sourceId args), CallFindElement (p_targetId args)]
           @ (if el_id source = el_id target then []
              else if isAncestorOf m source target
                then [CallIsAncestorOf (el_id source) (el_id target)]
              else [CallIsAncestorOf (el_id source) (el_id target),
                    CallIsAncestorOf (el_id target) (el_id source)]))"
    by (auto simp: findRelationshipPaths_traced_def findRelationshipPaths_handler_traced_def)
  from findRelationshipPaths_traced_fst [of m args] traced
  show "findRelationshipPaths m args = Inl InvalidArgument" by simp
next
  assume h: "(case p_maxDepth args of None \<Rightarrow> True | Some d \<Rightarrow> 1 \<le> d \<and> d \<le> 5)
      \<and> (findElement m (p_sourceId args) = None \<or> findElement m (p_targetId args) = None)"
  then obtain d where
    d: "z_optional_default (z_int_min_max 1 5) 3 (p_maxDepth args) = Inr d"
    by (auto simp: z_optional_default_def z_int_min_max_def split: option.splits)
  with h show traced: "findRelationshipPaths_traced m args =
          (Inl NotFound,
           if findElement m (p_sourceId args) = None then [CallFindElement (p_sourceId args)]
           else [CallFindElement (p_sourceId args), CallFindElement (p_targetId args)])"
    by (auto simp: findRelationshipPaths_traced_def findRelationshipPaths_handler_traced_def
        split: option.splits)
  from findRelationshipPaths_traced_fst [of m args] traced
  show "findRelationshipPaths m args = Inl NotFound" by (simp split: if_splits)
next
  assume "CallOutgoing e \<in> set (snd (findRelationshipPaths_traced m args))"
  then have "\<exists>ps. fst (findRelationshipPaths_traced m args) = Inr ps"
    using findRelationshipPaths_handler_traced_outgoing [of e m]
    by (auto simp: findRelationshipPaths_traced_def split: sum.splits)
  then show "\<exists>ps. findRelationshipPaths m args = Inr ps"
    by (simp add: findRelationshipPaths_traced_fst)
next
  assume run: "findRelationshipPaths m args = Inr ps"
  then obtain s t where st:
    "findElement m (p_sourceId args) = Some s" "findElement m (p_targetId args) = Some t"
    "el_id s \<noteq> el_id t" "\<not> isAncestorOf m s t" "\<not> isAncestorOf m t s"
    by (rule findRelationshipPaths_Inr)
  from run obtain d where
    d: "z_optional_default (z_int_min_max 1 5) 3 (p_maxDepth args) = Inr d"
    by (auto simp: findRelationshipPaths_def split: sum.splits)
  let ?valid = "[CallFindElement (p_sourceId args), CallFindElement (p_targetId args),
               CallIsAncestorOf (el_id s) (el_id t), CallIsAncestorOf (el_id t) (el_id s)]"
  let ?init = "[\<lparr>node_elementId = el_id s, node_path = [], node_visited = [el_id s]\<rparr>]"
  from st d have "snd (findRelationshipPaths_traced m args)
      = snd (search_traced m (el_id t) (effective_maxDepth (args\<lparr>p_maxDepth := Some d\<rparr>))
               ?init [] ?valid)"
    by (simp add: findRelationshipPaths_traced_def findRelationshipPaths_handler_traced_def
        Let_def del: search_traced.simps)
  moreover from search_traced_calls
    [of m "el_id t" "effective_maxDepth (args\<lparr>p_maxDepth := Some d\<rparr>)" ?init "[]" ?valid]
  obtain rest where "snd (search_traced m (el_id t)
        (effective_maxDepth (args\<lparr>p_maxDepth := Some d\<rparr>)) ?init [] ?valid) = ?valid @ rest"
    "\<forall>c\<in>set rest. \<forall>x y. c \<noteq> CallIsAncestorOf x y"
    by blast
  ultimately have "snd (findRelationshipPaths_traced m args) = ?valid @ rest
      \<and> (\<forall>c\<in>set rest. \<forall>x y. c \<noteq> CallIsAncestorOf x y)"
    by simp
  with st(1,2) show "\<exists>s t rest.
            findElement m (p_sourceId args) = Some s \<and> findElement m (p_targetId args) = Some t
          \<and> snd (findRelationshipPaths_traced m args) =
              [CallFindElement (p_sourceId args), CallFindElement (p_targetId args),
               CallIsAncestorOf (el_id s) (el_id t), CallIsAncestorOf (el_id t) (el_id s)] @ rest
          \<and> (\<forall>c\<in>set rest. \<forall>x y. c \<noteq> CallIsAncestorOf x y)"
    by blast
qed

theorem findRelationshipPaths_validation_first_witness:
  "findRelationshipPaths_traced chain_model
     \<lparr>p_sourceId = ''a'', p_targetId = ''a'', p_maxDepth = Some 2\<rparr>
     = (Inl InvalidArgument, [CallFindElement ''a'', CallFindElement ''a''])
   \<and> findRelationshipPaths chain_model
       \<lparr>p_sourceId = ''a'', p_targetId = ''a'', p_maxDepth = Some 2\<rparr> = Inl InvalidArgument
   \<and> findRelationshipPaths_traced nested_model
       \<lparr>p_sourceId = ''shop'', p_targetId = ''shop.api'', p_maxDepth = None\<rparr>
     = (Inl InvalidArgument,
        [CallFindElement ''shop'', CallFindElement ''shop.api'',
         CallIsAncestorOf ''shop'' ''shop.api''])
   \<and> findRelationshipPaths_traced nested_model
       \<lparr>p_sourceId = ''shop.api'', p_targetId = ''shop'', p_maxDepth = None\<rparr>
     = (Inl InvalidArgument,
        [CallFindElement ''shop.api'', CallFindElement ''shop'',
         CallIsAncestorOf ''shop.api'' ''shop'', CallIsAncestorOf ''shop'' ''shop.api''])
   \<and> findRelationshipPaths_traced chain_model
       \<lparr>p_sourceId = ''a'', p_targetId = ''ghost'', p_maxDepth = None\<rparr>
     = (Inl NotFound, [CallFindElement ''a'', CallFindElement ''ghost''])
   \<and> CallOutgoing ''a'' \<in> set (snd (findRelationshipPaths_traced chain_model
         \<lparr>p_sourceId = ''a'', p_targetId = ''c'', p_maxDepth = None\<rparr>))
   \<and> (\<exists>ps rest. findRelationshipPaths chain_model
         \<lparr>p_sourceId = ''a'', p_targetId = ''c'', p_maxDepth = None\<rparr> = Inr ps
       \<and> snd (findRelationshipPaths_traced chain_model
           \<lparr>p_sourceId = ''a'', p_targetId = ''c'', p_maxDepth = None\<rparr>)
         = [CallFindElement ''a'', CallFindElement ''c'', CallIsAncestorOf ''a'' ''c'',
            CallIsAncestorOf ''c'' ''a''] @ rest
       \<and> (\<forall>c\<in>set rest. \<forall>x y. c \<noteq> CallIsAncestorOf x y))"
proof -
  let ?same = "\<lparr>p_sourceId = ''a'', p_targetId = ''a'', p_maxDepth = Some 2\<rparr>"
  let ?down = "\<lparr>p_sourceId = ''shop'', p_targetId = ''shop.api'', p_maxDepth = None\<rparr>"
  let ?up = "\<lparr>p_sourceId = ''shop.api'', p_targetId = ''shop'', p_maxDepth = None\<rparr>"
  let ?ghost = "\<lparr>p_sourceId = ''a'', p_targetId = ''ghost'', p_maxDepth = None\<rparr>"
  let ?ok = "\<lparr>p_sourceId = ''a'', p_targetId = ''c'', p_maxDepth = None\<rparr>"
  have same: "findRelationshipPaths_traced chain_model ?same
     = (Inl InvalidArgument, [CallFindElement ''a'', CallFindElement ''a''])"
    and same': "findRelationshipPaths chain_model ?same = Inl InvalidArgument"
    using findRelationshipPaths_validation_first
      [where m = chain_model and args = ?same and source = el_a and target = el_a]
    by (simp_all add: chain_model_def)
  have down: "findRelationshipPaths_traced nested_model ?down
     = (Inl InvalidArgument,
        [CallFindElement ''shop'', CallFindElement ''shop.api'',
         CallIsAncestorOf ''shop'' ''shop.api''])"
    using findRelationshipPaths_validation_first
      [where m = nested_model and args = ?down and source = el_shop and target = el_api]
    by (simp add: nested_model_def el_shop_def el_api_def mk_element_def)
  have up: "findRelationshipPaths_traced nested_model ?up
     = (Inl InvalidArgument,
        [CallFindElement ''shop.api'', CallFindElement ''shop'',
         CallIsAncestorOf ''shop.api'' ''shop'', CallIsAncestorOf ''shop'' ''shop.api''])"
    using findRelationshipPaths_validation_first
      [where m = nested_model and args = ?up and source = el_api and target = el_shop]
    by (simp add: nested_model_def el_shop_def el_api_def mk_element_def)
  have ghost: "findRelationshipPaths_traced chain_model ?ghost
     = (Inl NotFound, [CallFindElement ''a'', CallFindElement ''ghost''])"
    using findRelationshipPaths_validation_first [where m = chain_model and args = ?ghost]
    by (simp add: chain_model_def)
  have out: "CallOutgoing ''a'' \<in> set (snd (findRelationshipPaths_traced chain_model ?ok))"
    by code_simp
  note ok = findRelationshipPaths_validation_first
    [where m = chain_model and args = ?ok and e = "''a''"]
  from ok [THEN conjunct2, THEN conjunct2, THEN conjunct2, THEN conjunct1, THEN mp, OF out]
  obtain ps where run: "findRelationshipPaths chain_model ?ok = Inr ps" by blast
  from findRelationshipPaths_validation_first
    [where m = chain_model and args = ?ok and ps = ps,
      THEN conjunct2, THEN conjunct2, THEN conjunct2, THEN conjunct2, THEN mp, OF run]
  obtain s t rest where st: "findElement chain_model ''a'' = Some s"
    "findElement chain_model ''c'' = Some t"
    and calls: "snd (findRelationshipPaths_traced chain_model ?ok) =
              [CallFindElement ''a'', CallFindElement ''c'',
               CallIsAncestorOf (el_id s) (el_id t), CallIsAncestorOf (el_id t) (el_id s)] @ rest"
    and rest: "\<forall>c\<in>set rest. \<forall>x y. c \<noteq> CallIsAncestorOf x y"
    by auto
  from st have "el_id s = ''a''" "el_id t = ''c''"
    by (auto simp: chain_model_def el_a_def el_c_def mk_element_def)
  with calls have calls': "snd (findRelationshipPaths_traced chain_model ?ok) =
      [CallFindElement ''a'', CallFindElement ''c'', CallIsAncestorOf ''a'' ''c'',
       CallIsAncestorOf ''c'' ''a''] @ rest"
    by simp
  from run calls' rest have "\<exists>ps rest. findRelationshipPaths chain_model ?ok = Inr ps
       \<and> snd (findRelationshipPaths_traced chain_model ?ok)
         = [CallFindElement ''a'', CallFindElement ''c'', CallIsAncestorOf ''a'' ''c'',
            CallIsAncestorOf ''c'' ''a''] @ rest
       \<and> (\<forall>c\<in>set rest. \<forall>x y. c \<noteq> CallIsAncestorOf x y)"
    by blast
  with same same' down up ghost out show ?thesis by blast
qed

text \<open>
  The claim as written fails where the ids do not resolve: with the same unknown id for
  source and target the first lookup fails, and the error is \<open>NotFound\<close>.
\<close>

theorem findRelationshipPaths_same_unknown_id:
  "p_sourceId \<lparr>p_sourceId = ''ghost'', p_targetId = ''ghost'', p_maxDepth = None\<rparr>
     = p_targetId \<lparr>p_sourceId = ''ghost'', p_targetId = ''ghost'', p_maxDepth = None\<rparr>
   \<and> findRelationshipPaths chain_model
       \<lparr>p_sourceId = ''ghost'', p_targetId = ''ghost'', p_maxDepth = None\<rparr> = Inl NotFound"
  by (simp add: findRelationshipPaths_def findRelationshipPaths_handler_def
      z_optional_default_def chain_model_def)

text \<open>
  Claim C1 at an input where the code departs from it. In the fan model the source has
  101 relationships that end in the target. The cap is tested only at the head of the
  \<open>while\<close> loop, so the single expansion of the source pushes all of them: the result
  holds 101 paths.
\<close>

theorem findRelationshipPaths_exceeds_cap:
  "map_sum id length
     (findRelationshipPaths fan_model \<lparr>p_sourceId = ''a'', p_targetId = ''b'', p_maxDepth = None\<rparr>)
   = Inr 101"
  by code_simp

section \<open>Properties of query-incomers-graph\<close>

lemma at_hops_step:
  "u \<in> set (at_hops m flt start k) \<Longrightarrow> v \<in> set (sources_of m flt u) \<Longrightarrow>
     v \<in> set (at_hops m flt start (Suc k))"
  by auto

lemma at_hops_SucE:
  assumes "v \<in> set (at_hops m flt start (Suc k))"
  obtains u where "u \<in> set (at_hops m flt start k)" and "v \<in> set (sources_of m flt u)"
  using assms by auto

lemma sources_of_exists: "v \<in> set (sources_of m flt u) \<Longrightarrow> findElement m u \<noteq> None"
  by (cases "findElement m u") (auto simp: sources_of_def)

lemma inv_skip:
  assumes inv: "bfs_inv_at m flt maxDepth maxNodes start gn ((e, d) # q) st"
    and skip: "maxDepth < int d \<or> e \<in> set (visited st) \<or> findElement m e = None"
  shows "bfs_inv_at m flt maxDepth maxNodes start gn q st"
proof -
  from inv have nodes: "nodes_ok m flt maxDepth start gn st"
    and queue: "queue_ok m flt start gn ((e, d) # q)"
    and frontier: "frontier_ok m flt maxDepth gn ((e, d) # q) st"
    and root: "root_ok m maxDepth start ((e, d) # q) st"
    and rest: "\<not> truncated st" "int (length (visited st)) \<le> maxNodes"
    by (simp_all add: bfs_inv_at_def)
  have "queue_ok m flt start gn q"
  proof (cases q)
    case Nil
    then show ?thesis by (simp add: queue_ok_def)
  next
    case (Cons y ys)
    from queue have "d \<le> snd y" unfolding queue_ok_def Cons by simp
    with queue show ?thesis unfolding queue_ok_def Cons by fastforce
  qed
  moreover have "frontier_ok m flt maxDepth gn q st"
    unfolding frontier_ok_def
  proof (intro allI impI)
    fix u n v
    assume u: "gn u = Some n" and v: "v \<in> set (sources_of m flt u)"
    with frontier have "v \<in> set (visited st) \<or> (v, Suc (depth n)) \<in> set ((e, d) # q)
        \<or> findElement m v = None \<or> maxDepth < int (Suc (depth n))"
      unfolding frontier_ok_def by blast
    with skip show "v \<in> set (visited st) \<or> (v, Suc (depth n)) \<in> set q
        \<or> findElement m v = None \<or> maxDepth < int (Suc (depth n))"
      by auto
  qed
  moreover have "root_ok m maxDepth start q st"
    using root skip unfolding root_ok_def by auto
  ultimately show ?thesis using nodes rest by (simp add: bfs_inv_at_def)
qed

lemma below_head_visited:
  assumes inv: "bfs_inv_at m flt maxDepth maxNodes start gn ((e, d) # q) st"
  shows "k < d \<Longrightarrow> int k \<le> maxDepth \<Longrightarrow> v \<in> set (at_hops m flt start k) \<Longrightarrow>
     findElement m v \<noteq> None \<Longrightarrow> \<exists>n. gn v = Some n \<and> depth n \<le> k"
proof (induction k arbitrary: v)
  case 0
  from inv have nodes: "nodes_ok m flt maxDepth start gn st"
    and queue: "queue_ok m flt start gn ((e, d) # q)"
    and root: "root_ok m maxDepth start ((e, d) # q) st"
    by (simp_all add: bfs_inv_at_def)
  from 0 have v: "v = start" by simp
  have "(start, 0) \<notin> set ((e, d) # q)"
  proof
    assume "(start, 0) \<in> set ((e, d) # q)"
    with queue have "d \<le> 0" unfolding queue_ok_def by fastforce
    with 0 show False by simp
  qed
  with root 0 v have "start \<in> set (visited st)" by (auto simp: root_ok_def)
  with nodes obtain n where n: "gn start = Some n" unfolding nodes_ok_def by blast
  with nodes have "\<forall>k<depth n. start \<notin> set (at_hops m flt start k)"
    unfolding nodes_ok_def by blast
  then have "depth n = 0" by (cases "depth n") auto
  with n v show ?case by simp
next
  case (Suc k)
  from inv have nodes: "nodes_ok m flt maxDepth start gn st"
    and queue: "queue_ok m flt start gn ((e, d) # q)"
    and frontier: "frontier_ok m flt maxDepth gn ((e, d) # q) st"
    by (simp_all add: bfs_inv_at_def)
  from Suc.prems(3) obtain u where u: "u \<in> set (at_hops m flt start k)"
    and uv: "v \<in> set (sources_of m flt u)" by (rule at_hops_SucE)
  from uv have "findElement m u \<noteq> None" by (rule sources_of_exists)
  with Suc.IH [of u] Suc.prems(1,2) u obtain n where n: "gn u = Some n" "depth n \<le> k"
    by auto
  from frontier n(1) uv have "v \<in> set (visited st) \<or> (v, Suc (depth n)) \<in> set ((e, d) # q)
        \<or> findElement m v = None \<or> maxDepth < int (Suc (depth n))"
    unfolding frontier_ok_def by blast
  moreover have "(v, Suc (depth n)) \<notin> set ((e, d) # q)"
  proof
    assume "(v, Suc (depth n)) \<in> set ((e, d) # q)"
    with queue have "d \<le> Suc (depth n)" unfolding queue_ok_def by fastforce
    with n(2) Suc.prems(1) show False by simp
  qed
  moreover from n(2) Suc.prems(2) have "\<not> maxDepth < int (Suc (depth n))" by simp
  ultimately have "v \<in> set (visited st)" using Suc.prems(4) by blast
  with nodes obtain n' where n': "gn v = Some n'" unfolding nodes_ok_def by blast
  with nodes have "\<forall>j<depth n'. v \<notin> set (at_hops m flt start j)"
    unfolding nodes_ok_def by blast
  with Suc.prems(3) have "depth n' \<le> Suc k" by (meson not_less)
  with n' show ?case by simp
qed


lemma sorted_map_const: "sorted (map (\<lambda>x. (c::nat)) xs)"
  by (induction xs) auto

lemma sources_of_incomers:
  assumes "findElement m e = Some el"
  shows "map inc_elementId (map incomer_of (incoming m el flt)) = sources_of m flt e"
  using assms by (simp add: sources_of_def incomer_of_def)

lemma set_enqueue_incomers:
  "set (enqueue_incomers vis incomersData d q) =
     set q \<union> {(v, Suc d) | v. v \<in> set (map inc_elementId incomersData) \<and> v \<notin> set vis}"
  by (auto simp: enqueue_incomers_def set_has_def)

lemma inv_visit:
  assumes inv: "bfs_inv_at m flt maxDepth maxNodes start gn ((e, d) # q) st"
    and depth: "\<not> maxDepth < int d"
    and fresh: "e \<notin> set (visited st)"
    and room: "\<not> maxNodes \<le> int (length (visited st))"
    and el: "findElement m e = Some el"
  defines "incomersData \<equiv> map incomer_of (incoming m el flt)"
  defines "vis \<equiv> set_add (visited st) e"
  defines "st' \<equiv> \<lparr>visited = vis,
                    nodes = object_set (nodes st) e (graph_node_of el incomersData d),
                    actualMaxDepth = max (actualMaxDepth st) d, truncated = truncated st\<rparr>"
  defines "gn' \<equiv> gn(e \<mapsto> graph_node_of el incomersData d)"
  shows "bfs_inv_at m flt maxDepth maxNodes start gn' (enqueue_incomers vis incomersData d q) st'"
proof -
  from inv have nodes: "nodes_ok m flt maxDepth start gn st"
    and queue: "queue_ok m flt start gn ((e, d) # q)"
    and frontier: "frontier_ok m flt maxDepth gn ((e, d) # q) st"
    and root: "root_ok m maxDepth start ((e, d) # q) st"
    and rest: "\<not> truncated st" "int (length (visited st)) \<le> maxNodes"
    by (simp_all add: bfs_inv_at_def)
  have vis: "vis = visited st @ [e]"
    using fresh by (simp add: vis_def set_add_def)
  have srcs: "set (map inc_elementId incomersData) = set (sources_of m flt e)"
    unfolding incomersData_def sources_of_incomers [OF el] ..
  have newq: "set (enqueue_incomers vis incomersData d q) =
     set q \<union> {(v, Suc d) | v. v \<in> set (sources_of m flt e) \<and> v \<notin> set vis}"
    unfolding set_enqueue_incomers srcs ..
  have mem_new: "\<And>x. x \<in> set (enqueue_incomers vis incomersData d q) \<longleftrightarrow>
     x \<in> set q \<or> (\<exists>v. x = (v, Suc d) \<and> v \<in> set (sources_of m flt e)
        \<and> v \<notin> set (visited st) \<and> v \<noteq> e)"
    using newq vis by auto
  have vis_st': "visited st' = visited st @ [e]"
    by (simp add: st'_def vis)
  have depth_new [simp]: "depth (graph_node_of el incomersData d) = d"
    by (simp add: graph_node_of_def)
  have e_at: "e \<in> set (at_hops m flt start d)"
    using queue unfolding queue_ok_def by simp
  have q_ge: "\<And>x. x \<in> set q \<Longrightarrow> d \<le> snd x"
    using queue unfolding queue_ok_def by auto
  have q_le: "\<And>x. x \<in> set q \<Longrightarrow> snd x \<le> Suc d"
    using queue unfolding queue_ok_def by auto
  have old_le: "\<And>v n. gn v = Some n \<Longrightarrow> depth n \<le> d"
    using queue unfolding queue_ok_def by fastforce
  have minimal: "\<forall>k<d. e \<notin> set (at_hops m flt start k)"
  proof (intro allI impI notI)
    fix k assume k: "k < d" and at: "e \<in> set (at_hops m flt start k)"
    from k depth have "int k \<le> maxDepth" by simp
    from below_head_visited [OF inv k this at] el obtain n where "gn e = Some n" by auto
    then have "e \<in> dom gn" by blast
    with nodes fresh show False unfolding nodes_ok_def by simp
  qed
  have "nodes_ok m flt maxDepth start gn' st'"
    unfolding nodes_ok_def
  proof (intro conjI allI impI)
    from nodes have "nodes st = own_keys gn" unfolding nodes_ok_def by simp
    then show "nodes st' = own_keys gn'"
      by (auto simp: st'_def gn'_def own_keys_def object_set_def)
    show "dom gn' = set (visited st')"
      using nodes unfolding nodes_ok_def st'_def gn'_def vis by auto
    show "distinct (visited st')"
      using nodes fresh unfolding nodes_ok_def st'_def vis by simp
  next
    fix v n assume vn: "gn' v = Some n"
    show "v \<in> set (at_hops m flt start (depth n))"
      and "findElement m v \<noteq> None" and "int (depth n) \<le> maxDepth"
      using vn nodes e_at el depth unfolding nodes_ok_def gn'_def
      by (auto split: if_splits)
    fix k assume "k < depth n"
    with vn nodes minimal show "v \<notin> set (at_hops m flt start k)"
      unfolding nodes_ok_def gn'_def by (auto split: if_splits)
  qed
  moreover have "queue_ok m flt start gn' (enqueue_incomers vis incomersData d q)"
    unfolding queue_ok_def
  proof (intro conjI allI impI ballI)
    have "sorted (map snd q)" using queue unfolding queue_ok_def by simp
    then show "sorted (map snd (enqueue_incomers vis incomersData d q))"
      using q_le by (auto simp: enqueue_incomers_def sorted_append comp_def sorted_map_const)
  next
    fix x assume x: "x \<in> set (enqueue_incomers vis incomersData d q)"
    then have le: "snd x \<le> Suc d" using q_le [of x] unfolding newq by auto
    show "snd x \<le> Suc (snd (hd (enqueue_incomers vis incomersData d q)))"
    proof (cases q)
      case Nil
      with x show ?thesis
        by (cases "filter (\<lambda>i. \<not> set_has vis (inc_elementId i)) incomersData")
          (auto simp: enqueue_incomers_def)
    next
      case (Cons y ys)
      then have "hd (enqueue_incomers vis incomersData d q) = y"
        by (simp add: enqueue_incomers_def)
      moreover have "d \<le> snd y" using q_ge [of y] Cons by simp
      ultimately show ?thesis using le by simp
    qed
    show "fst x \<in> set (at_hops m flt start (snd x))"
    proof (cases "x \<in> set q")
      case True
      with queue show ?thesis unfolding queue_ok_def by simp
    next
      case False
      with x obtain v where "x = (v, Suc d)" "v \<in> set (sources_of m flt e)"
        unfolding newq by auto
      with at_hops_step [OF e_at] show ?thesis by simp
    qed
  next
    fix v n x
    assume vn: "gn' v = Some n" and x: "x \<in> set (enqueue_incomers vis incomersData d q)"
    from vn have "depth n \<le> d"
      using old_le unfolding gn'_def by (auto split: if_splits)
    moreover from x have "d \<le> snd x" using q_ge [of x] unfolding newq by auto
    ultimately show "depth n \<le> snd x" by simp
  qed
  moreover have "frontier_ok m flt maxDepth gn' (enqueue_incomers vis incomersData d q) st'"
    unfolding frontier_ok_def
  proof (intro allI impI)
    fix u n v
    assume un: "gn' u = Some n" and v: "v \<in> set (sources_of m flt u)"
    show "v \<in> set (visited st') \<or> (v, Suc (depth n)) \<in> set (enqueue_incomers vis incomersData d q)
        \<or> findElement m v = None \<or> maxDepth < int (Suc (depth n))"
    proof (cases "u = e")
      case True
      with un have "depth n = d" by (auto simp: gn'_def)
      with v True show ?thesis by (auto simp: mem_new vis_st')
    next
      case False
      with un have "gn u = Some n" by (simp add: gn'_def)
      with frontier v have "v \<in> set (visited st) \<or> (v, Suc (depth n)) \<in> set ((e, d) # q)
        \<or> findElement m v = None \<or> maxDepth < int (Suc (depth n))"
        unfolding frontier_ok_def by blast
      then show ?thesis by (auto simp: mem_new vis_st')
    qed
  qed
  moreover have "root_ok m maxDepth start (enqueue_incomers vis incomersData d q) st'"
    using root unfolding root_ok_def by (auto simp: mem_new vis_st')
  moreover have "\<not> truncated st'" using rest by (simp add: st'_def)
  moreover have "int (length (visited st')) \<le> maxNodes"
    using room by (simp add: st'_def vis)
  ultimately show ?thesis by (simp add: bfs_inv_at_def)
qed

lemma nodes_ok_truncated [simp]:
  "nodes_ok m flt maxDepth start gn (st\<lparr>truncated := b\<rparr>) = nodes_ok m flt maxDepth start gn st"
  by (simp add: nodes_ok_def)

lemma inv_root_visited:
  assumes inv: "bfs_inv_at m flt maxDepth maxNodes start gn q st"
    and ex: "findElement m start \<noteq> None" and md: "0 \<le> maxDepth"
    and ne: "visited st \<noteq> []"
  shows "start \<in> set (visited st)"
proof -
  from inv have nodes: "nodes_ok m flt maxDepth start gn st"
    and queue: "queue_ok m flt start gn q"
    and root: "root_ok m maxDepth start q st"
    by (simp_all add: bfs_inv_at_def)
  from root ex md consider "start \<in> set (visited st)" | "(start, 0) \<in> set q"
    unfolding root_ok_def by auto
  then show ?thesis
  proof cases
    case 1
    then show ?thesis .
  next
    case 2
    from ne obtain v where v: "v \<in> set (visited st)" by (cases "visited st") auto
    with nodes obtain n where n: "gn v = Some n" unfolding nodes_ok_def by blast
    with queue 2 have "depth n \<le> 0" unfolding queue_ok_def by fastforce
    moreover from nodes n have "v \<in> set (at_hops m flt start (depth n))"
      unfolding nodes_ok_def by blast
    ultimately have "v = start" by simp
    with v show ?thesis by simp
  qed
qed

lemma traverse_post:
  "bfs_inv m flt maxDepth maxNodes start q st \<Longrightarrow>
     bfs_post m flt maxDepth maxNodes start (traverse m flt maxDepth maxNodes q st)"
proof (induction m flt maxDepth maxNodes q st rule: traverse.induct)
  case (1 m flt maxDepth maxNodes st)
  then obtain gn where "bfs_inv_at m flt maxDepth maxNodes start gn [] st"
    unfolding bfs_inv_def by blast
  then have "bfs_post_at m flt maxDepth maxNodes start gn st"
    by (auto simp: bfs_inv_at_def bfs_post_at_def root_ok_def)
  then show ?case unfolding bfs_post_def by auto
next
  case (2 m flt maxDepth maxNodes eid d queue st)
  from "2.prems" obtain gn where
    inv: "bfs_inv_at m flt maxDepth maxNodes start gn ((eid, d) # queue) st"
    unfolding bfs_inv_def by blast
  consider (deep) "maxDepth < int d"
    | (seen) "\<not> maxDepth < int d" "set_has (visited st) eid"
    | (full) "\<not> maxDepth < int d" "\<not> set_has (visited st) eid"
        "maxNodes \<le> int (set_size (visited st))"
    | (missing) "\<not> maxDepth < int d" "\<not> set_has (visited st) eid"
        "\<not> maxNodes \<le> int (set_size (visited st))" "findElement m eid = None"
    | (visit) el where "\<not> maxDepth < int d" "\<not> set_has (visited st) eid"
        "\<not> maxNodes \<le> int (set_size (visited st))" "findElement m eid = Some el"
    by (cases "findElement m eid") auto
  then show ?case
  proof cases
    case deep
    with inv_skip [OF inv] have "bfs_inv m flt maxDepth maxNodes start queue st"
      unfolding bfs_inv_def by auto
    with "2.IH"(1) deep show ?thesis by simp
  next
    case seen
    with inv_skip [OF inv] have "bfs_inv m flt maxDepth maxNodes start queue st"
      unfolding bfs_inv_def by (auto simp: set_has_def)
    with "2.IH"(2) seen show ?thesis by simp
  next
    case full
    from inv have nodes: "nodes_ok m flt maxDepth start gn st"
      and queue: "queue_ok m flt start gn ((eid, d) # queue)"
      and len: "int (length (visited st)) \<le> maxNodes"
      by (simp_all add: bfs_inv_at_def)
    from queue have at: "eid \<in> set (at_hops m flt start d)" unfolding queue_ok_def by simp
    have root: "findElement m start \<noteq> None \<and> 0 \<le> maxDepth \<and> 0 < maxNodes \<longrightarrow>
          start \<in> set (visited st)"
    proof (intro impI)
      assume h: "findElement m start \<noteq> None \<and> 0 \<le> maxDepth \<and> 0 < maxNodes"
      with full(3) have "visited st \<noteq> []" by (auto simp: set_size_def)
      with inv_root_visited [OF inv] h show "start \<in> set (visited st)" by simp
    qed
    have "traverse m flt maxDepth maxNodes ((eid, d) # queue) st = st\<lparr>truncated := True\<rparr>"
      using full by simp
    moreover have "\<exists>e d. int d \<le> maxDepth \<and> e \<in> set (at_hops m flt start d)
        \<and> e \<notin> set (visited st)"
      using full at by (intro exI [of _ eid] exI [of _ d]) (simp add: set_has_def)
    then have "bfs_post_at m flt maxDepth maxNodes start gn (st\<lparr>truncated := True\<rparr>)"
      unfolding bfs_post_at_def using nodes len root full
      by (simp add: set_size_def)
    then have "bfs_post m flt maxDepth maxNodes start (st\<lparr>truncated := True\<rparr>)"
      unfolding bfs_post_def by blast
    ultimately show ?thesis by simp
  next
    case missing
    with inv_skip [OF inv] have "bfs_inv m flt maxDepth maxNodes start queue st"
      unfolding bfs_inv_def by auto
    with "2.IH"(3) missing show ?thesis by simp
  next
    case visit
    from visit have fresh: "eid \<notin> set (visited st)"
      and room: "\<not> maxNodes \<le> int (length (visited st))"
      by (simp_all add: set_has_def set_size_def)
    from inv_visit [OF inv visit(1) fresh room visit(4)]
    have next_inv: "bfs_inv m flt maxDepth maxNodes start
        (enqueue_incomers (set_add (visited st) eid) (map incomer_of (incoming m el flt)) d queue)
        \<lparr>visited = set_add (visited st) eid,
         nodes = object_set (nodes st) eid
                   (graph_node_of el (map incomer_of (incoming m el flt)) d),
         actualMaxDepth = max (actualMaxDepth st) d, truncated = truncated st\<rparr>"
      unfolding bfs_inv_def by blast
    from "2.IH"(4) [OF visit(1) visit(2) visit(3) visit(4) refl refl next_inv] visit
    show ?thesis by (simp add: Let_def)
  qed
qed

lemma own_keys_empty [simp]: "own_keys Map.empty = Map.empty"
  by (simp add: own_keys_def)

lemma bfs_inv_initial:
  assumes "0 \<le> maxNodes"
  shows "bfs_inv m flt maxDepth maxNodes start [(start, 0)]
           \<lparr>visited = [], nodes = Map.empty, actualMaxDepth = 0, truncated = False\<rparr>"
  unfolding bfs_inv_def
  using assms
  by (intro exI [of _ Map.empty])
     (simp add: bfs_inv_at_def nodes_ok_def queue_ok_def frontier_ok_def root_ok_def)

lemma closed_covers:
  assumes nodes: "nodes_ok m flt maxDepth start gn st"
    and frontier: "frontier_ok m flt maxDepth gn [] st"
    and root: "start \<in> set (visited st)"
  shows "int k \<le> maxDepth \<Longrightarrow> v \<in> set (at_hops m flt start k) \<Longrightarrow>
     findElement m v \<noteq> None \<Longrightarrow> \<exists>n. gn v = Some n \<and> depth n \<le> k"
proof (induction k arbitrary: v)
  case 0
  then have v: "v = start" by simp
  with root nodes obtain n where n: "gn start = Some n" unfolding nodes_ok_def by blast
  with nodes have "\<forall>k<depth n. start \<notin> set (at_hops m flt start k)"
    unfolding nodes_ok_def by blast
  then have "depth n = 0" by (cases "depth n") auto
  with n v show ?case by simp
next
  case (Suc k)
  from Suc.prems(2) obtain u where u: "u \<in> set (at_hops m flt start k)"
    and uv: "v \<in> set (sources_of m flt u)" by (rule at_hops_SucE)
  from uv have "findElement m u \<noteq> None" by (rule sources_of_exists)
  with Suc.IH [of u] Suc.prems(1) u obtain n where n: "gn u = Some n" "depth n \<le> k"
    by auto
  from frontier n(1) uv have "v \<in> set (visited st) \<or> (v, Suc (depth n)) \<in> set []
        \<or> findElement m v = None \<or> maxDepth < int (Suc (depth n))"
    unfolding frontier_ok_def by blast
  moreover from n(2) Suc.prems(1) have "\<not> maxDepth < int (Suc (depth n))" by simp
  ultimately have "v \<in> set (visited st)" using Suc.prems(3) by simp
  with nodes obtain n' where n': "gn v = Some n'" unfolding nodes_ok_def by blast
  with nodes have "\<forall>j<depth n'. v \<notin> set (at_hops m flt start j)"
    unfolding nodes_ok_def by blast
  with Suc.prems(2) have "depth n' \<le> Suc k" by (meson not_less)
  with n' show ?case by simp
qed

lemma reach_within_iff:
  "v \<in> set (reach_within m flt start k) \<longleftrightarrow> (\<exists>j\<le>k. v \<in> set (at_hops m flt start j))"
  by (auto simp: reach_within_def less_Suc_eq_le simp del: upt_Suc)

lemma closure_within_iff:
  "v \<in> closure_within m flt start k \<longleftrightarrow>
     (\<exists>j\<le>k. v \<in> set (at_hops m flt start j)) \<and> findElement m v \<noteq> None"
  by (auto simp: closure_within_def reach_within_iff)

lemma parse_incomers_args_Inr:
  assumes "parse_incomers_args raw = Inr args"
  shows "a_elementId args = g_elementId raw" and "1 \<le> a_maxDepth args" and "a_maxDepth args \<le> 100"
    and "1 \<le> a_maxNodes args" and "a_maxNodes args \<le> 5000"
  using assms
  by (auto simp: parse_incomers_args_def z_optional_default_def z_int_positive_max_def
      split: sum.splits option.splits if_splits)

lemma queryIncomersGraph_Inr:
  assumes "parse_incomers_args raw = Inr args" and "queryIncomersGraph m raw = Inr res"
  obtains st where
    "bfs_post m (filter_of args) (a_maxDepth args) (a_maxNodes args) (g_elementId raw) st"
    "findElement m (g_elementId raw) \<noteq> None"
    "totalNodes res = length (visited st)" "res_nodes res = nodes st"
    "res_truncated res = truncated st"
proof -
  note p = parse_incomers_args_Inr [OF assms(1)]
  define st where "st = traverse m (filter_of args) (a_maxDepth args) (a_maxNodes args)
     [(g_elementId raw, 0)] \<lparr>visited = [], nodes = Map.empty, actualMaxDepth = 0, truncated = False\<rparr>"
  from p have mins: "min (a_maxDepth args) 100 = a_maxDepth args"
    "min (a_maxNodes args) 5000 = a_maxNodes args" by simp_all
  from assms have h: "queryIncomersGraph_handler m args = Inr res"
    by (simp add: queryIncomersGraph_def)
  then have ex: "findElement m (g_elementId raw) \<noteq> None"
    using p(1) by (auto simp: queryIncomersGraph_handler_def split: option.splits)
  from h ex p(1) mins have res: "res = \<lparr>res_target = a_elementId args, totalNodes = set_size (visited st),
                  res_maxDepth = actualMaxDepth st, res_truncated = truncated st,
                  res_nodes = nodes st\<rparr>"
    by (auto simp: queryIncomersGraph_handler_def Let_def st_def filter_of_def
        simp del: traverse.simps split: option.splits)
  from p have "0 \<le> a_maxNodes args" by simp
  from traverse_post [OF bfs_inv_initial [OF this]]
  have "bfs_post m (filter_of args) (a_maxDepth args) (a_maxNodes args) (g_elementId raw) st"
    unfolding st_def .
  with ex res that show thesis by (simp add: set_size_def)
qed

text \<open>
  What the traversal guarantees about depths. Every node the result holds is stored at
  its shortest hop count from the start: it is reachable in exactly \<open>depth\<close> hops along
  incoming relationships under the filter the handler passes to \<open>incoming\<close>, and in no
  fewer. The start entity is stored at depth 0 unless its id is \<open>__proto__\<close>, and the
  result holds as many nodes as \<open>totalNodes\<close> counts unless an element with that id lies
  within \<open>maxDepth\<close> hops; it never holds more.
\<close>

lemma queryIncomersGraph_depths:
  assumes "parse_incomers_args raw = Inr args" and "queryIncomersGraph m raw = Inr res"
  shows "(g_elementId raw \<noteq> ''__proto__'' \<longrightarrow>
            (\<exists>n. res_nodes res (g_elementId raw) = Some n \<and> depth n = 0))
     \<and> (\<forall>v n. res_nodes res v = Some n \<longrightarrow>
           v \<in> set (at_hops m (filter_of args) (g_elementId raw) (depth n))
           \<and> (\<forall>k<depth n. v \<notin> set (at_hops m (filter_of args) (g_elementId raw) k)))
     \<and> card (dom (res_nodes res)) \<le> totalNodes res
     \<and> (''__proto__'' \<notin> closure_within m (filter_of args) (g_elementId raw)
                           (nat (a_maxDepth args))
          \<longrightarrow> totalNodes res = card (dom (res_nodes res)))"
proof -
  note p = parse_incomers_args_Inr [OF assms(1)]
  from assms obtain st where post:
    "bfs_post m (filter_of args) (a_maxDepth args) (a_maxNodes args) (g_elementId raw) st"
    and ex: "findElement m (g_elementId raw) \<noteq> None"
    and res: "totalNodes res = length (visited st)" "res_nodes res = nodes st"
    by (rule queryIncomersGraph_Inr)
  from post obtain gn where post:
    "bfs_post_at m (filter_of args) (a_maxDepth args) (a_maxNodes args) (g_elementId raw) gn st"
    unfolding bfs_post_def by blast
  from post have nodes: "nodes_ok m (filter_of args) (a_maxDepth args) (g_elementId raw) gn st"
    by (simp add: bfs_post_at_def)
  from nodes have own: "nodes st = own_keys gn" and dom: "dom gn = set (visited st)"
    and dist: "distinct (visited st)"
    unfolding nodes_ok_def by simp_all
  from post ex p have "g_elementId raw \<in> set (visited st)" by (simp add: bfs_post_at_def)
  with nodes obtain n where n: "gn (g_elementId raw) = Some n"
    unfolding nodes_ok_def by blast
  with nodes have "\<forall>k<depth n. g_elementId raw \<notin> set (at_hops m (filter_of args) (g_elementId raw) k)"
    unfolding nodes_ok_def by blast
  then have "depth n = 0" by (cases "depth n") auto
  with n res own have start: "g_elementId raw \<noteq> ''__proto__'' \<longrightarrow>
      (\<exists>n. res_nodes res (g_elementId raw) = Some n \<and> depth n = 0)"
    by (simp add: own_keys_def)
  have stored: "gn v = Some n" if "res_nodes res v = Some n" for v n
    using that res own by (simp add: own_keys_def split: if_splits)
  with nodes have depths: "\<forall>v n. res_nodes res v = Some n \<longrightarrow>
           v \<in> set (at_hops m (filter_of args) (g_elementId raw) (depth n))
           \<and> (\<forall>k<depth n. v \<notin> set (at_hops m (filter_of args) (g_elementId raw) k))"
    unfolding nodes_ok_def by blast
  from res own have sub: "dom (res_nodes res) = dom gn - {''__proto__''}"
    by (auto simp: own_keys_def split: if_splits)
  have fin: "finite (dom gn)" using dom by simp
  from dom dist res have total: "totalNodes res = card (dom gn)"
    by (simp add: distinct_card)
  from sub fin have le: "card (dom (res_nodes res)) \<le> card (dom gn)"
    by (simp add: card_mono)
  have eq: "totalNodes res = card (dom (res_nodes res))"
    if np: "''__proto__'' \<notin> closure_within m (filter_of args) (g_elementId raw)
                           (nat (a_maxDepth args))"
  proof -
    have "''__proto__'' \<notin> dom gn"
    proof
      assume "''__proto__'' \<in> dom gn"
      then obtain n where n: "gn ''__proto__'' = Some n" by blast
      with nodes have "''__proto__'' \<in> set (at_hops m (filter_of args) (g_elementId raw) (depth n))"
        and "findElement m ''__proto__'' \<noteq> None" and "int (depth n) \<le> a_maxDepth args"
        unfolding nodes_ok_def by blast+
      then have "''__proto__'' \<in> closure_within m (filter_of args) (g_elementId raw)
                           (nat (a_maxDepth args))"
        unfolding closure_within_iff by (intro conjI exI [of _ "depth n"]) simp_all
      with np show False by simp
    qed
    with sub total show ?thesis by simp
  qed
  from start depths le total eq show ?thesis by simp
qed

text \<open>
  Claim C6 at an input where the code departs from it. \<open>nodes\<close> is a plain object, so
  the assignment \<open>nodes[elementId] = ...\<close> for the element whose id is \<open>__proto__\<close> adds no
  key. On a snapshot where element \<open>a\<close> depends on an element with that id, the query
  from that element visits both (\<open>totalNodes\<close> is 2) and returns \<open>a\<close> at depth 1 as the
  only node: the start node is missing, and the entity visited first is recorded
  nowhere.
\<close>

theorem queryIncomersGraph_start_node_missing:
  "findElement proto_model ''__proto__'' = Some el_proto
   \<and> map_sum id (\<lambda>res. (totalNodes res, res_nodes res ''__proto__'',
                        map_option depth (res_nodes res ''a'')))
       (queryIncomersGraph proto_model
          \<lparr>g_elementId = ''__proto__'', g_includeIndirect = None, g_maxDepth = None,
           g_maxNodes = None\<rparr>)
     = Inr (2, None, Some 1)
   \<and> map_sum id (\<lambda>res. dom (res_nodes res))
       (queryIncomersGraph proto_model
          \<lparr>g_elementId = ''__proto__'', g_includeIndirect = None, g_maxDepth = None,
           g_maxNodes = None\<rparr>)
     = Inr {''a''}"
  by (simp add: queryIncomersGraph_def queryIncomersGraph_handler_def parse_incomers_args_def
      z_optional_default_def z_int_positive_max_def proto_model_def el_proto_def el_a_def
      mk_element_def mk_rel_def filter_of_def set_has_def set_add_def set_size_def
      enqueue_incomers_def incomer_of_def falsy_def object_set_def graph_node_of_def Let_def)

text \<open>
  Claim C4. In every result \<open>totalNodes\<close> is at most \<open>maxNodes\<close>. When more than
  \<open>maxNodes\<close> elements lie within \<open>maxDepth\<close> hops of the start, the result is truncated
  and its \<open>totalNodes\<close> is exactly \<open>maxNodes\<close>. A truncated result always has
  \<open>totalNodes\<close> equal to \<open>maxNodes\<close> and leaves out an entity within \<open>maxDepth\<close> hops. The iteration
  that stops the traversal (an unvisited entity within \<open>maxDepth\<close> taken from the queue
  when \<open>maxNodes\<close> entities are visited) returns the state as it was with only the flag
  set: that entity is not marked visited and gets no node.
\<close>

theorem queryIncomersGraph_node_quota:
  assumes "parse_incomers_args raw = Inr args" and "queryIncomersGraph m raw = Inr res"
  shows "int (totalNodes res) \<le> a_maxNodes args
     \<and> (nat (a_maxNodes args)
          < card (closure_within m (filter_of args) (g_elementId raw) (nat (a_maxDepth args)))
        \<longrightarrow> res_truncated res \<and> int (totalNodes res) = a_maxNodes args)
     \<and> (res_truncated res \<longrightarrow>
          int (totalNodes res) = a_maxNodes args
          \<and> (\<exists>e\<in>set (reach_within m (filter_of args) (g_elementId raw) (nat (a_maxDepth args))).
                res_nodes res e = None))
     \<and> (\<not> maxDepth < int d \<and> \<not> set_has (visited st0) eid
          \<and> maxNodes \<le> int (set_size (visited st0)) \<longrightarrow>
        traverse m flt maxDepth maxNodes ((eid, d) # queue) st0 = st0\<lparr>truncated := True\<rparr>)"
proof -
  note p = parse_incomers_args_Inr [OF assms(1)]
  from assms obtain st where post:
    "bfs_post m (filter_of args) (a_maxDepth args) (a_maxNodes args) (g_elementId raw) st"
    and ex: "findElement m (g_elementId raw) \<noteq> None"
    and res: "totalNodes res = length (visited st)" "res_nodes res = nodes st"
      "res_truncated res = truncated st"
    by (rule queryIncomersGraph_Inr)
  from post obtain gn where post:
    "bfs_post_at m (filter_of args) (a_maxDepth args) (a_maxNodes args) (g_elementId raw) gn st"
    unfolding bfs_post_def by blast
  from post have nodes: "nodes_ok m (filter_of args) (a_maxDepth args) (g_elementId raw) gn st"
    and len: "int (length (visited st)) \<le> a_maxNodes args"
    by (simp_all add: bfs_post_at_def)
  from post ex p have root: "g_elementId raw \<in> set (visited st)"
    by (simp add: bfs_post_at_def)
  have trunc: "int (length (visited st)) = a_maxNodes args
          \<and> (\<exists>e\<in>set (reach_within m (filter_of args) (g_elementId raw) (nat (a_maxDepth args))).
                nodes st e = None)" if t: "truncated st"
  proof -
    from post t len have eq: "int (length (visited st)) = a_maxNodes args"
      by (simp add: bfs_post_at_def)
    from post t obtain e d where ed: "int d \<le> a_maxDepth args"
      "e \<in> set (at_hops m (filter_of args) (g_elementId raw) d)" "e \<notin> set (visited st)"
      by (auto simp: bfs_post_at_def)
    from ed(1) have "d \<le> nat (a_maxDepth args)" by simp
    with ed(2) have "e \<in> set (reach_within m (filter_of args) (g_elementId raw) (nat (a_maxDepth args)))"
      unfolding reach_within_iff by blast
    moreover from ed(3) nodes have "gn e = None" unfolding nodes_ok_def by blast
    with nodes have "nodes st e = None" unfolding nodes_ok_def by (simp add: own_keys_def)
    ultimately show ?thesis using eq by blast
  qed
  have big: "truncated st"
    if c: "nat (a_maxNodes args)
          < card (closure_within m (filter_of args) (g_elementId raw) (nat (a_maxDepth args)))"
  proof (rule ccontr)
    assume nt: "\<not> truncated st"
    with post have frontier: "frontier_ok m (filter_of args) (a_maxDepth args) gn [] st"
      by (simp add: bfs_post_at_def)
    have "closure_within m (filter_of args) (g_elementId raw) (nat (a_maxDepth args))
            \<subseteq> set (visited st)"
    proof
      fix v assume "v \<in> closure_within m (filter_of args) (g_elementId raw) (nat (a_maxDepth args))"
      then obtain j where j: "j \<le> nat (a_maxDepth args)"
        "v \<in> set (at_hops m (filter_of args) (g_elementId raw) j)" "findElement m v \<noteq> None"
        unfolding closure_within_iff by blast
      from j(1) p(2) have "int j \<le> a_maxDepth args" by linarith
      from closed_covers [OF nodes frontier root this j(2,3)]
      have "v \<in> dom gn" by blast
      with nodes show "v \<in> set (visited st)" unfolding nodes_ok_def by simp
    qed
    then have "card (closure_within m (filter_of args) (g_elementId raw) (nat (a_maxDepth args)))
        \<le> card (set (visited st))"
      by (intro card_mono) simp_all
    also have "\<dots> \<le> length (visited st)" by (rule card_length)
    finally show False using c len by simp
  qed
  have stop: "\<not> maxDepth < int d \<and> \<not> set_has (visited st0) eid
          \<and> maxNodes \<le> int (set_size (visited st0)) \<longrightarrow>
        traverse m flt maxDepth maxNodes ((eid, d) # queue) st0 = st0\<lparr>truncated := True\<rparr>"
    by simp
  from len res have "int (totalNodes res) \<le> a_maxNodes args" by simp
  with trunc big res have "int (totalNodes res) \<le> a_maxNodes args
     \<and> (nat (a_maxNodes args)
          < card (closure_within m (filter_of args) (g_elementId raw) (nat (a_maxDepth args)))
        \<longrightarrow> res_truncated res \<and> int (totalNodes res) = a_maxNodes args)
     \<and> (res_truncated res \<longrightarrow>
          int (totalNodes res) = a_maxNodes args
          \<and> (\<exists>e\<in>set (reach_within m (filter_of args) (g_elementId raw) (nat (a_maxDepth args))).
                res_nodes res e = None))"
    by simp
  with stop show ?thesis by blast
qed

theorem queryIncomersGraph_node_quota_witness:
  "\<exists>res.
      queryIncomersGraph chain_model
        \<lparr>g_elementId = ''c'', g_includeIndirect = None, g_maxDepth = Some 3, g_maxNodes = Some 2\<rparr>
        = Inr res
    \<and> 2 < card (closure_within chain_model FilterAll ''c'' 3)
    \<and> res_truncated res \<and> totalNodes res = 2
    \<and> (\<exists>e\<in>set (reach_within chain_model FilterAll ''c'' 3). res_nodes res e = None)
    \<and> traverse chain_model FilterAll 3 2 [(''a'', 2)]
          \<lparr>visited = [''c'', ''b''], nodes = Map.empty, actualMaxDepth = 1, truncated = False\<rparr>
        = \<lparr>visited = [''c'', ''b''], nodes = Map.empty, actualMaxDepth = 1, truncated = True\<rparr>"
proof -
  let ?st = "\<lparr>visited = [''c'', ''b''], nodes = Map.empty, actualMaxDepth = 1,
              truncated = False\<rparr> :: traversal"
  let ?raw = "\<lparr>g_elementId = ''c'', g_includeIndirect = None, g_maxDepth = Some 3,
               g_maxNodes = Some 2\<rparr>"
  let ?args = "\<lparr>a_elementId = ''c'', a_includeIndirect = True, a_maxDepth = 3,
                a_maxNodes = 2\<rparr>"
  have parse: "parse_incomers_args ?raw = Inr ?args"
    by (simp add: parse_incomers_args_def z_optional_default_def z_int_positive_max_def)
  have flt: "filter_of ?args = FilterAll"
    by (simp add: filter_of_def)
  have "case queryIncomersGraph chain_model ?raw of Inl e \<Rightarrow> False | Inr res \<Rightarrow> True"
    by code_simp
  then obtain res where run: "queryIncomersGraph chain_model ?raw = Inr res"
    by (auto split: sum.splits)
  have big: "2 < card (closure_within chain_model FilterAll ''c'' 3)"
    by code_simp
  from queryIncomersGraph_node_quota
    [OF parse run, of 3 2 ?st "''a''" 2 FilterAll "[]"] flt big
  have "res_truncated res \<and> totalNodes res = 2
    \<and> (\<exists>e\<in>set (reach_within chain_model FilterAll ''c'' 3). res_nodes res e = None)
    \<and> traverse chain_model FilterAll 3 2 [(''a'', 2)] ?st = ?st\<lparr>truncated := True\<rparr>"
    by (simp add: set_has_def set_size_def del: traverse.simps)
  with run big show ?thesis by auto
qed

end
